theory Spec2Isabelle
  imports Complex_Main "HOL-Library.AList"
begin

section \<open>Data model\<close>

text \<open>
  The visitor tracker of \<^verbatim>\<open>state_tracker.py\<close> binds the short-lived track ids of the
  detector to persistent visitor ids and logs one entry and one exit per visit.

  A track id is a Python int. A visitor id is the UUID issued by the Visitors table; it
  is kept abstract as a natural number (a UUID object is always truthy in Python, so the
  tests \<^verbatim>\<open>if visitor_id:\<close> only distinguish it from \<^verbatim>\<open>None\<close>). A crop is the image region
  \<^verbatim>\<open>frame[y1:y2, x1:x2]\<close>, kept abstract as a natural number. An embedding is a vector
  of numbers; timestamps of \<^verbatim>\<open>time.time()\<close> and similarities are modelled as reals,
  floating-point rounding is not modelled.
\<close>

type_synonym track_id = int
type_synonym visitor_id = nat
type_synonym crop = nat
type_synonym embedding = "real list"

datatype event_type = Entry | Exit

text \<open>
  Emitting an event is \<^verbatim>\<open>_save_cropped_face\<close> followed, when a path came back, by
  \<^verbatim>\<open>database.log_event\<close>. The image write can fail (\<^verbatim>\<open>_save_cropped_face\<close> returns
  \<^verbatim>\<open>None\<close>, \<^verbatim>\<open>log_event\<close> is not called), and the INSERT of \<^verbatim>\<open>log_event\<close> can fail
  (the exception is caught and rolled back, nothing is stored).
\<close>

datatype outcome = ImageFailed | StoreFailed | Recorded

datatype emission =
  Emission (em_visitor: visitor_id) (em_type: event_type) (em_crop: crop) (em_outcome: outcome)

record config =
  similarity_threshold :: real
  exit_timeout :: real

text \<open>
  The collaborators of one frame update. \<open>cosine_distance\<close> is the operator \<^verbatim>\<open><=>\<close> of
  pgvector; \<open>find_raises\<close> says whether the SELECT of \<^verbatim>\<open>find_visitor\<close> raises;
  \<open>insert_visitor\<close> is the id the INSERT of \<^verbatim>\<open>register_new_visitor\<close> returns (\<open>None\<close>
  when it raises or returns no row); \<open>save_cropped_face\<close> is the path returned by
  \<^verbatim>\<open>_save_cropped_face\<close> (\<open>None\<close> when the write raises); \<open>insert_event_ok\<close> says whether
  the INSERT of \<^verbatim>\<open>log_event\<close> commits. \<open>mark_time\<close> is the value of \<^verbatim>\<open>time.time()\<close> read
  in loop 3 for a lost track and \<open>sweep_time\<close> the one read before loop 4.
\<close>

record env =
  get_embedding :: "crop \<Rightarrow> embedding option"
  cosine_distance :: "embedding \<Rightarrow> embedding \<Rightarrow> real"
  find_raises :: "embedding \<Rightarrow> bool"
  insert_visitor :: "embedding \<Rightarrow> visitor_id option"
  save_cropped_face :: "crop \<Rightarrow> visitor_id \<Rightarrow> event_type \<Rightarrow> string option"
  insert_event_ok :: "visitor_id \<Rightarrow> event_type \<Rightarrow> bool"
  mark_time :: "track_id \<Rightarrow> real"
  sweep_time :: real

text \<open>
  The three dictionaries of \<^verbatim>\<open>VisitorTracker\<close>. A Python dict keeps insertion order, and
  loop 2 takes the first matching value and loop 4 iterates the items, so the two dicts
  are association lists: assignment to a present key replaces the value in place, to an
  absent key appends (\<open>AList.update\<close>), \<^verbatim>\<open>pop\<close> deletes the key (\<open>AList.delete\<close>).
\<close>

record tracker =
  active_tracks :: "(track_id \<times> visitor_id \<times> crop) list"
  pending_exit :: "(visitor_id \<times> real \<times> crop) list"
  logged_entry_this_visit :: "visitor_id set"

text \<open>The rows of the Visitors table: visitor id and stored embedding.\<close>

type_synonym visitors_table = "(visitor_id \<times> embedding) list"

definition init_tracker :: tracker where
  "init_tracker = \<lparr>active_tracks = [], pending_exit = [], logged_entry_this_visit = {}\<rparr>"

section \<open>database.py\<close>

text \<open>
  \<^verbatim>\<open>ORDER BY similarity DESC LIMIT 1\<close>: a row of greatest similarity. SQL leaves the
  choice among equal similarities open; the model takes the first such row of the table.
\<close>

fun best_row :: "(visitor_id \<times> real) list \<Rightarrow> (visitor_id \<times> real) option" where
  "best_row [] = None"
| "best_row (r # rs) =
     (case best_row rs of
        None \<Rightarrow> Some r
      | Some b \<Rightarrow> if snd r < snd b then Some b else Some r)"

definition similarity_rows :: "env \<Rightarrow> visitors_table \<Rightarrow> embedding \<Rightarrow> (visitor_id \<times> real) list" where
  "similarity_rows ev conn embedding =
     map (\<lambda>row. (fst row, 1 - cosine_distance ev (snd row) embedding)) conn"

definition find_visitor ::
  "env \<Rightarrow> visitors_table \<Rightarrow> embedding \<Rightarrow> real \<Rightarrow> visitor_id option \<times> real" where
  "find_visitor ev conn embedding threshold =
     (if find_raises ev embedding then (None, 0)
      else case best_row (filter (\<lambda>r. threshold \<le> snd r) (similarity_rows ev conn embedding)) of
             None \<Rightarrow> (None, 0)
           | Some result \<Rightarrow> (Some (fst result), snd result))"

text \<open>
  \<^verbatim>\<open>register_new_visitor\<close>: the INSERT returns the id of the new row. The table's
  declaration is not part of the sources; the visitor id is its key, so an id that is
  already present makes the INSERT raise, which the function turns into \<^verbatim>\<open>None\<close>.
\<close>

definition register_new_visitor ::
  "env \<Rightarrow> visitors_table \<Rightarrow> embedding \<Rightarrow> visitors_table \<times> visitor_id option" where
  "register_new_visitor ev conn embedding =
     (case insert_visitor ev embedding of
        None \<Rightarrow> (conn, None)
      | Some v \<Rightarrow> if v \<in> fst ` set conn then (conn, None) else (conn @ [(v, embedding)], Some v))"

section \<open>VisitorTracker.update\_frame\<close>

subsection \<open>Loop 1: identify all tracks in the current frame\<close>

text \<open>
  The loop state: the tracker, the Visitors table, \<^verbatim>\<open>current_track_ids\<close> and
  \<^verbatim>\<open>current_visitor_ids_in_frame\<close>. Loop 2 iterates the latter; Python leaves the order
  of a set open, the model iterates in insertion order.
\<close>

type_synonym loop1_state = "tracker \<times> visitors_table \<times> track_id set \<times> visitor_id list"

definition add_visitor :: "visitor_id \<Rightarrow> visitor_id list \<Rightarrow> visitor_id list" where
  "add_visitor v vis = (if v \<in> set vis then vis else vis @ [v])"

definition bind_track :: "track_id \<Rightarrow> visitor_id \<Rightarrow> crop \<Rightarrow> tracker \<Rightarrow> tracker" where
  "bind_track track_id visitor_id crop_img s =
     s\<lparr>active_tracks := AList.update track_id (visitor_id, crop_img) (active_tracks s)\<rparr>"

definition loop1_body ::
  "config \<Rightarrow> env \<Rightarrow> track_id \<times> crop \<Rightarrow> loop1_state \<Rightarrow> loop1_state" where
  "loop1_body cfg ev tc st =
     (let s = fst st; conn = fst (snd st); ids = fst (snd (snd st)); vis = snd (snd (snd st));
          track_id = fst tc; crop_img = snd tc;
          ids' = insert track_id ids
      in (case map_of (active_tracks s) track_id of
            Some known \<Rightarrow>
              (bind_track track_id (fst known) crop_img s, conn, ids', add_visitor (fst known) vis)
          | None \<Rightarrow>
              (case get_embedding ev crop_img of
                 None \<Rightarrow> (s, conn, ids', vis)
               | Some embedding \<Rightarrow>
                   (case fst (find_visitor ev conn embedding (similarity_threshold cfg)) of
                      Some visitor_id \<Rightarrow>
                        (bind_track track_id visitor_id crop_img s, conn, ids',
                         add_visitor visitor_id vis)
                    | None \<Rightarrow>
                        (case register_new_visitor ev conn embedding of
                           (conn', None) \<Rightarrow> (s, conn', ids', vis)
                         | (conn', Some visitor_id) \<Rightarrow>
                             (bind_track track_id visitor_id crop_img s, conn', ids',
                              add_visitor visitor_id vis))))))"

fun loop1 :: "config \<Rightarrow> env \<Rightarrow> (track_id \<times> crop) list \<Rightarrow> loop1_state \<Rightarrow> loop1_state" where
  "loop1 cfg ev [] st = st"
| "loop1 cfg ev (tc # tcs) st = loop1 cfg ev tcs (loop1_body cfg ev tc st)"

text \<open>
  The frame's tracks: \<open>None\<close> when \<^verbatim>\<open>tracks.id is None\<close>, otherwise the pairs of
  \<^verbatim>\<open>zip(track_ids, bboxes)\<close> with the crop each box cuts out of the frame.
\<close>

definition identify_tracks ::
  "config \<Rightarrow> env \<Rightarrow> (track_id \<times> crop) list option \<Rightarrow> tracker \<Rightarrow> visitors_table \<Rightarrow> loop1_state" where
  "identify_tracks cfg ev tracks s conn =
     (case tracks of
        None \<Rightarrow> (s, conn, {}, [])
      | Some tcs \<Rightarrow> loop1 cfg ev tcs (s, conn, {}, []))"

subsection \<open>Loop 2: entry and re-appearance\<close>

fun crop_of_visitor :: "(track_id \<times> visitor_id \<times> crop) list \<Rightarrow> visitor_id \<Rightarrow> crop option" where
  "crop_of_visitor [] v = None"
| "crop_of_visitor (t # ts) v = (if fst (snd t) = v then Some (snd (snd t)) else crop_of_visitor ts v)"

text \<open>\<^verbatim>\<open>if img_path:\<close> holds for a path that is neither \<^verbatim>\<open>None\<close> nor empty.\<close>

definition saved :: "string option \<Rightarrow> bool" where
  "saved img_path = (case img_path of None \<Rightarrow> False | Some p \<Rightarrow> p \<noteq> [])"

definition log_event :: "env \<Rightarrow> visitor_id \<Rightarrow> event_type \<Rightarrow> outcome" where
  "log_event ev visitor_id event = (if insert_event_ok ev visitor_id event then Recorded else StoreFailed)"

definition loop2_body :: "env \<Rightarrow> visitor_id \<Rightarrow> tracker \<times> emission list \<Rightarrow> tracker \<times> emission list" where
  "loop2_body ev visitor_id st =
     (case st of (s, out) \<Rightarrow>
      let s1 = s\<lparr>pending_exit := AList.delete visitor_id (pending_exit s)\<rparr> in
      if visitor_id \<notin> logged_entry_this_visit s1 then
        (case crop_of_visitor (active_tracks s1) visitor_id of
           None \<Rightarrow> (s1, out)
         | Some crop_to_log \<Rightarrow>
             if saved (save_cropped_face ev crop_to_log visitor_id Entry) then
               (s1\<lparr>logged_entry_this_visit := insert visitor_id (logged_entry_this_visit s1)\<rparr>,
                out @ [Emission visitor_id Entry crop_to_log (log_event ev visitor_id Entry)])
             else (s1, out @ [Emission visitor_id Entry crop_to_log ImageFailed]))
      else (s1, out))"

fun loop2 :: "env \<Rightarrow> visitor_id list \<Rightarrow> tracker \<times> emission list \<Rightarrow> tracker \<times> emission list" where
  "loop2 ev [] st = st"
| "loop2 ev (v # vs) st = loop2 ev vs (loop2_body ev v st)"

subsection \<open>Loop 3: disappearances start the exit timer\<close>

text \<open>
  \<^verbatim>\<open>set(self.active_tracks.keys()) - current_track_ids\<close>. Python leaves the order in
  which the loop visits this set open; the model visits the lost tracks in the order of
  their keys in \<^verbatim>\<open>active_tracks\<close>. The keys of a dict are distinct, \<open>remdups\<close> only
  matters for an association list that is not the image of a dict.
\<close>

definition lost_track_ids :: "tracker \<Rightarrow> track_id set \<Rightarrow> track_id list" where
  "lost_track_ids s ids = remdups (filter (\<lambda>t. t \<notin> ids) (map fst (active_tracks s)))"

definition loop3_body :: "env \<Rightarrow> visitor_id list \<Rightarrow> track_id \<Rightarrow> tracker \<Rightarrow> tracker" where
  "loop3_body ev vis track_id s =
     (case map_of (active_tracks s) track_id of
        None \<Rightarrow> s
      | Some track_data \<Rightarrow>
          let s1 = s\<lparr>active_tracks := AList.delete track_id (active_tracks s)\<rparr>;
              visitor_id = fst track_data;
              last_crop = snd track_data;
              is_still_visible = (visitor_id \<in> set vis)
          in if \<not> is_still_visible then
               s1\<lparr>pending_exit :=
                    AList.update visitor_id (mark_time ev track_id, last_crop) (pending_exit s1)\<rparr>
             else s1)"

fun loop3 :: "env \<Rightarrow> visitor_id list \<Rightarrow> track_id list \<Rightarrow> tracker \<Rightarrow> tracker" where
  "loop3 ev vis [] s = s"
| "loop3 ev vis (t # ts) s = loop3 ev vis ts (loop3_body ev vis t s)"

subsection \<open>Loop 4: final exits\<close>

definition loop4_body ::
  "config \<Rightarrow> env \<Rightarrow> visitor_id \<times> real \<times> crop \<Rightarrow> tracker \<times> emission list \<Rightarrow> tracker \<times> emission list" where
  "loop4_body cfg ev item st =
     (case st of (s, out) \<Rightarrow>
      case item of (visitor_id, timestamp, last_crop) \<Rightarrow>
      let time_disappeared = sweep_time ev - timestamp in
      if exit_timeout cfg < time_disappeared then
        (s\<lparr>pending_exit := AList.delete visitor_id (pending_exit s),
           logged_entry_this_visit := logged_entry_this_visit s - {visitor_id}\<rparr>,
         out @ [Emission visitor_id Exit last_crop
                  (if saved (save_cropped_face ev last_crop visitor_id Exit)
                   then log_event ev visitor_id Exit else ImageFailed)])
      else (s, out))"

fun loop4 ::
  "config \<Rightarrow> env \<Rightarrow> (visitor_id \<times> real \<times> crop) list \<Rightarrow> tracker \<times> emission list \<Rightarrow> tracker \<times> emission list" where
  "loop4 cfg ev [] st = st"
| "loop4 cfg ev (item # items) st = loop4 cfg ev items (loop4_body cfg ev item st)"

subsection \<open>The frame update\<close>

text \<open>
  A frame is the detector's tracks together with what the collaborators answer while the
  frame is processed. The update returns the tracker, the Visitors table and the
  emissions of the frame in the order they were made.

  Every collaborator catches its own exceptions (\<^verbatim>\<open>get_embedding\<close>, \<^verbatim>\<open>find_visitor\<close>,
  \<^verbatim>\<open>register_new_visitor\<close>, \<^verbatim>\<open>log_event\<close> and \<^verbatim>\<open>_save_cropped_face\<close> each wrap the
  calls that can fail in \<^verbatim>\<open>try\<close>), which is why each of them is a total function with a
  failure value here. An exception raised by the handler itself, such as a failing \<^verbatim>\<open>rollback\<close>, or by
  the tensor conversions at the head of loop 1, would leave \<^verbatim>\<open>update_frame\<close> half way;
  such a frame is not modelled.
\<close>

record frame =
  tracks :: "(track_id \<times> crop) list option"
  world :: env

definition visible_visitors :: "config \<Rightarrow> frame \<Rightarrow> tracker \<Rightarrow> visitors_table \<Rightarrow> visitor_id list" where
  "visible_visitors cfg f s conn = snd (snd (snd (identify_tracks cfg (world f) (tracks f) s conn)))"

definition update_frame ::
  "config \<Rightarrow> frame \<Rightarrow> tracker \<times> visitors_table \<Rightarrow> (tracker \<times> visitors_table) \<times> emission list" where
  "update_frame cfg f st =
     (case st of (s, conn) \<Rightarrow>
      case identify_tracks cfg (world f) (tracks f) s conn of (s1, conn1, ids, vis) \<Rightarrow>
      case loop2 (world f) vis (s1, []) of (s2, out2) \<Rightarrow>
      let s3 = loop3 (world f) vis (lost_track_ids s2 ids) s2 in
      case loop4 cfg (world f) (pending_exit s3) (s3, out2) of (s4, out4) \<Rightarrow>
      ((s4, conn1), out4))"

text \<open>A run of frame updates, with the emissions of all frames in order.\<close>

fun run ::
  "config \<Rightarrow> frame list \<Rightarrow> (tracker \<times> visitors_table) \<times> emission list
     \<Rightarrow> (tracker \<times> visitors_table) \<times> emission list" where
  "run cfg [] st = st"
| "run cfg (f # fs) st =
     (case update_frame cfg f (fst st) of (st', out) \<Rightarrow> run cfg fs (st', snd st @ out))"

section \<open>Notions used to state the properties\<close>

text \<open>
  The emissions that concern one visitor, the outcome of an emission as the sinks decide
  it, the condition of loop 4 and the emission loop 4 makes for a pending item.
\<close>

definition entry_outcome :: "env \<Rightarrow> crop \<Rightarrow> visitor_id \<Rightarrow> outcome" where
  "entry_outcome ev c v = (if saved (save_cropped_face ev c v Entry) then log_event ev v Entry else ImageFailed)"

definition on_visitor :: "visitor_id \<Rightarrow> emission list \<Rightarrow> emission list" where
  "on_visitor w out = filter (\<lambda>e. em_visitor e = w) out"

definition entry_emissions :: "env \<Rightarrow> tracker \<Rightarrow> visitor_id \<Rightarrow> emission list" where
  "entry_emissions ev s v =
     (if v \<in> logged_entry_this_visit s then []
      else case crop_of_visitor (active_tracks s) v of
             None \<Rightarrow> []
           | Some c \<Rightarrow> [Emission v Entry c (entry_outcome ev c v)])"

definition expired :: "config \<Rightarrow> env \<Rightarrow> visitor_id \<times> real \<times> crop \<Rightarrow> bool" where
  "expired cfg ev item \<longleftrightarrow> exit_timeout cfg < sweep_time ev - fst (snd item)"

definition exit_outcome :: "env \<Rightarrow> crop \<Rightarrow> visitor_id \<Rightarrow> outcome" where
  "exit_outcome ev c v = (if saved (save_cropped_face ev c v Exit) then log_event ev v Exit else ImageFailed)"

definition exit_emission :: "env \<Rightarrow> visitor_id \<times> real \<times> crop \<Rightarrow> emission" where
  "exit_emission ev item = Emission (fst item) Exit (snd (snd item)) (exit_outcome ev (snd (snd item)) (fst item))"

definition visitors_of :: "(track_id \<times> visitor_id \<times> crop) list \<Rightarrow> visitor_id set" where
  "visitors_of al = (\<lambda>p. fst (snd p)) ` set al"

definition bound_visible :: "loop1_state \<Rightarrow> bool" where
  "bound_visible st \<longleftrightarrow>
     distinct (map fst (active_tracks (fst st))) \<and>
     (\<forall>p \<in> set (active_tracks (fst st)). fst p \<in> fst (snd (snd st)) \<longrightarrow> fst (snd p) \<in> set (snd (snd (snd st))))"

definition frame_track_ids :: "frame \<Rightarrow> track_id set" where
  "frame_track_ids f = (case tracks f of None \<Rightarrow> {} | Some tcs \<Rightarrow> fst ` set tcs)"

definition after_loop1 :: "config \<Rightarrow> frame \<Rightarrow> tracker \<Rightarrow> visitors_table \<Rightarrow> tracker" where
  "after_loop1 cfg f s conn = fst (identify_tracks cfg (world f) (tracks f) s conn)"

definition after_loop2 :: "config \<Rightarrow> frame \<Rightarrow> tracker \<Rightarrow> visitors_table \<Rightarrow> tracker" where
  "after_loop2 cfg f s conn =
     fst (loop2 (world f) (visible_visitors cfg f s conn) (after_loop1 cfg f s conn, []))"

definition after_loop3 :: "config \<Rightarrow> frame \<Rightarrow> tracker \<Rightarrow> visitors_table \<Rightarrow> tracker" where
  "after_loop3 cfg f s conn =
     loop3 (world f) (visible_visitors cfg f s conn)
       (lost_track_ids (after_loop2 cfg f s conn) (frame_track_ids f)) (after_loop2 cfg f s conn)"

text \<open>The visitors bound to the tracks \<open>ts\<close>: those whose tracks loop 3 removes.\<close>

definition lost_visitors :: "tracker \<Rightarrow> track_id list \<Rightarrow> visitor_id set" where
  "lost_visitors s ts = {v. \<exists>t \<in> set ts. \<exists>c. map_of (active_tracks s) t = Some (v, c)}"

text \<open>
  What every reachable tracker satisfies: the keys of both dictionaries are distinct (they
  are dictionaries), and no visitor bound to an active track waits in the exit buffer.
\<close>

definition tracker_inv :: "tracker \<Rightarrow> bool" where
  "tracker_inv s \<longleftrightarrow>
     distinct (map fst (active_tracks s)) \<and> distinct (map fst (pending_exit s)) \<and>
     visitors_of (active_tracks s) \<inter> fst ` set (pending_exit s) = {}"

definition sinks_repaired :: "env \<Rightarrow> env" where
  "sinks_repaired ev =
     ev\<lparr>save_cropped_face :=
          (\<lambda>c v k. if k = Exit \<and> \<not> saved (save_cropped_face ev c v k) then Some ''exit.jpg''
                    else save_cropped_face ev c v k),
        insert_event_ok := (\<lambda>v k. True)\<rparr>"

definition em_content :: "emission \<Rightarrow> visitor_id \<times> event_type \<times> crop" where
  "em_content e = (em_visitor e, em_type e, em_crop e)"

definition sink_outcome :: "env \<Rightarrow> emission \<Rightarrow> outcome" where
  "sink_outcome ev e =
     (if saved (save_cropped_face ev (em_crop e) (em_visitor e) (em_type e))
      then (if insert_event_ok ev (em_visitor e) (em_type e) then Recorded else StoreFailed)
      else ImageFailed)"

text \<open>Two worlds that differ only in the store and in the images of exits.\<close>

definition same_inputs :: "env \<Rightarrow> env \<Rightarrow> bool" where
  "same_inputs ev ev' \<longleftrightarrow>
     get_embedding ev' = get_embedding ev \<and> cosine_distance ev' = cosine_distance ev \<and>
     find_raises ev' = find_raises ev \<and> insert_visitor ev' = insert_visitor ev \<and>
     mark_time ev' = mark_time ev \<and> sweep_time ev' = sweep_time ev \<and>
     (\<forall>c v. saved (save_cropped_face ev' c v Entry) = saved (save_cropped_face ev c v Entry))"

fun absent_during :: "config \<Rightarrow> visitor_id \<Rightarrow> frame list \<Rightarrow> tracker \<times> visitors_table \<Rightarrow> bool" where
  "absent_during cfg v [] st = True"
| "absent_during cfg v (f # fs) st =
     (v \<notin> set (visible_visitors cfg f (fst st) (snd st)) \<and>
      absent_during cfg v fs (fst (update_frame cfg f st)))"

text \<open>
  The emissions that reached \<^verbatim>\<open>database.log_event\<close> (those whose image was written), the
  events of one visitor among them, in order, and the frames whose images are all written.
\<close>

definition logged_events :: "emission list \<Rightarrow> emission list" where
  "logged_events tr = filter (\<lambda>e. em_outcome e \<noteq> ImageFailed) tr"

definition events_of :: "visitor_id \<Rightarrow> emission list \<Rightarrow> event_type list" where
  "events_of v tr = map em_type (on_visitor v (logged_events tr))"



text \<open>A visitor the tracker holds: bound to an active track, or waiting in the exit buffer.\<close>

definition known :: "tracker \<Rightarrow> visitor_id \<Rightarrow> bool" where
  "known s v \<longleftrightarrow> v \<in> visitors_of (active_tracks s) \<or> v \<in> fst ` set (pending_exit s)"





section \<open>A concrete scene\<close>

text \<open>
  The configuration of the spec's scenario (threshold 0.6, timeout 3 s) and collaborators
  that all succeed: every crop embeds to the same vector, the table holds visitor 7 under
  that vector, images are written and events stored.
\<close>

definition demo_cfg :: config where
  "demo_cfg = \<lparr>similarity_threshold = 0.6, exit_timeout = 3\<rparr>"

definition demo_env :: env where
  "demo_env = \<lparr>get_embedding = (\<lambda>c. Some [1, 0]),
     cosine_distance = (\<lambda>a b. if a = b then 0 else 1),
     find_raises = (\<lambda>e. False),
     insert_visitor = (\<lambda>e. Some 7),
     save_cropped_face = (\<lambda>c v k. Some ''logs/entries/v.jpg''),
     insert_event_ok = (\<lambda>v k. True),
     mark_time = (\<lambda>t. 0),
     sweep_time = 0\<rparr>"

definition demo_conn :: visitors_table where
  "demo_conn = [(7, [1, 0])]"

text \<open>Track 1 is reported with crop 10; nothing else is.\<close>

definition demo_frame :: frame where
  "demo_frame = \<lparr>tracks = Some [(1, 10)], world = demo_env\<rparr>"

text \<open>Visitor 8 is bound to track 2, visitor 7 waits in the exit buffer; both have entered.\<close>

definition demo_s :: tracker where
  "demo_s = \<lparr>active_tracks = [(2, 8, 6)], pending_exit = [(7, 0, 5)],
              logged_entry_this_visit = {7, 8}\<rparr>"

definition noface_env :: env where
  "noface_env = demo_env\<lparr>get_embedding := (\<lambda>c. None)\<rparr>"

definition noface_frame :: frame where
  "noface_frame = \<lparr>tracks = Some [(1, 10)], world = noface_env\<rparr>"

definition churn_s :: tracker where
  "churn_s = \<lparr>active_tracks = [(2, 7, 6)], pending_exit = [], logged_entry_this_visit = {7}\<rparr>"

definition noregister_env :: env where
  "noregister_env = demo_env\<lparr>insert_visitor := (\<lambda>e. None)\<rparr>"

definition entryfail_env :: env where
  "entryfail_env = demo_env\<lparr>save_cropped_face := (\<lambda>c v k. None)\<rparr>"

definition entryfail_frame :: frame where
  "entryfail_frame = \<lparr>tracks = Some [(1, 10)], world = entryfail_env\<rparr>"

definition sinkfail_env :: env where
  "sinkfail_env = demo_env\<lparr>save_cropped_face := (\<lambda>c v k. if k = Exit then None else Some ''entry.jpg''),
     insert_event_ok := (\<lambda>v k. False), sweep_time := 10\<rparr>"

definition sinkfail_frame :: frame where
  "sinkfail_frame = \<lparr>tracks = Some [(1, 10)], world = sinkfail_env\<rparr>"

definition leaving_s :: tracker where
  "leaving_s = \<lparr>active_tracks = [], pending_exit = [(8, 0, 6)], logged_entry_this_visit = {8}\<rparr>"

definition waiting_s :: tracker where
  "waiting_s = \<lparr>active_tracks = [], pending_exit = [(7, 0, 5)], logged_entry_this_visit = {7}\<rparr>"

definition idle_frame :: frame where
  "idle_frame = \<lparr>tracks = None, world = demo_env\<lparr>sweep_time := 1\<rparr>\<rparr>"

definition back_frame :: frame where
  "back_frame = \<lparr>tracks = Some [(1, 10)], world = demo_env\<lparr>sweep_time := 10\<rparr>\<rparr>"

definition present_s :: tracker where
  "present_s = \<lparr>active_tracks = [(1, 7, 10)], pending_exit = [], logged_entry_this_visit = {7}\<rparr>"

definition gone_frame :: frame where
  "gone_frame = \<lparr>tracks = None, world = demo_env\<lparr>mark_time := (\<lambda>t. 2), sweep_time := 2\<rparr>\<rparr>"

definition still_gone_frame :: frame where
  "still_gone_frame = \<lparr>tracks = None, world = demo_env\<lparr>sweep_time := 4\<rparr>\<rparr>"

definition timeout_frame :: frame where
  "timeout_frame = \<lparr>tracks = None, world = demo_env\<lparr>sweep_time := 6\<rparr>\<rparr>"

definition boundary_env :: env where
  "boundary_env = demo_env\<lparr>sweep_time := 3\<rparr>"

definition latefail_frame :: frame where
  "latefail_frame = \<lparr>tracks = None, world = sinkfail_env\<rparr>"

definition gone_again_frame :: frame where
  "gone_again_frame = \<lparr>tracks = None, world = demo_env\<lparr>mark_time := (\<lambda>t. 12), sweep_time := 12\<rparr>\<rparr>"

definition timeout_again_frame :: frame where
  "timeout_again_frame = \<lparr>tracks = None, world = demo_env\<lparr>sweep_time := 16\<rparr>\<rparr>"

text \<open>
  Frames by the clock: binding 1 reported with crop 10 at time \<open>t\<close>; no track at time \<open>t\<close>;
  and no track at time \<open>t\<close> while no image can be written.
\<close>

definition seen_at :: "real \<Rightarrow> frame" where
  "seen_at t = \<lparr>tracks = Some [(1, 10)], world = demo_env\<lparr>sweep_time := t\<rparr>\<rparr>"

definition unseen_at :: "real \<Rightarrow> frame" where
  "unseen_at t = \<lparr>tracks = None, world = demo_env\<lparr>mark_time := (\<lambda>a. t), sweep_time := t\<rparr>\<rparr>"

definition unseen_noimage_at :: "real \<Rightarrow> frame" where
  "unseen_noimage_at t =
     \<lparr>tracks = None, world = entryfail_env\<lparr>mark_time := (\<lambda>a. t), sweep_time := t\<rparr>\<rparr>"

section \<open>The loops, one by one\<close>

lemmas model_defs = update_frame_def identify_tracks_def loop1_body_def find_visitor_def
  similarity_rows_def register_new_visitor_def bind_track_def add_visitor_def loop2_body_def
  saved_def log_event_def lost_track_ids_def loop3_body_def loop4_body_def visible_visitors_def
  frame_track_ids_def

lemmas demo_defs = demo_cfg_def demo_env_def demo_conn_def demo_frame_def demo_s_def
  noface_env_def noface_frame_def churn_s_def
  noregister_env_def
  entryfail_env_def entryfail_frame_def sinkfail_env_def sinkfail_frame_def leaving_s_def
  waiting_s_def idle_frame_def back_frame_def present_s_def gone_frame_def still_gone_frame_def timeout_frame_def boundary_env_def
  latefail_frame_def
  gone_again_frame_def timeout_again_frame_def
  seen_at_def unseen_at_def unseen_noimage_at_def

lemma loop2_body_active [simp]: "active_tracks (fst (loop2_body ev v st)) = active_tracks (fst st)"
  by (cases st) (simp add: loop2_body_def Let_def split: option.splits)

lemma loop2_active [simp]: "active_tracks (fst (loop2 ev vs st)) = active_tracks (fst st)"
  by (induction vs arbitrary: st) simp_all

lemma delete_as_filter: "AList.delete k al = filter (\<lambda>p. fst p \<noteq> k) al"
  by (induction al) auto

lemma loop2_body_pending [simp]:
  "pending_exit (fst (loop2_body ev v st)) = filter (\<lambda>p. fst p \<noteq> v) (pending_exit (fst st))"
  by (cases st) (simp add: loop2_body_def Let_def delete_as_filter split: option.splits)

lemma loop2_pending:
  "pending_exit (fst (loop2 ev vs st)) = filter (\<lambda>p. fst p \<notin> set vs) (pending_exit (fst st))"
proof (induction vs arbitrary: st)
  case Nil
  then show ?case by simp
next
  case (Cons v vs)
  have "filter (\<lambda>p. fst p \<notin> set vs) (filter (\<lambda>p. fst p \<noteq> v) (pending_exit (fst st)))
        = filter (\<lambda>p. fst p \<notin> set (v # vs)) (pending_exit (fst st))"
    by (induction "pending_exit (fst st)") auto
  with Cons show ?case by simp
qed

lemma on_visitor_append [simp]: "on_visitor w (xs @ ys) = on_visitor w xs @ on_visitor w ys"
  by (simp add: on_visitor_def)

lemma on_visitor_Nil [simp]: "on_visitor w [] = []"
  by (simp add: on_visitor_def)

lemma loop2_body_logged:
  "logged_entry_this_visit (fst (loop2_body ev v st)) =
     logged_entry_this_visit (fst st) \<union>
     {w. w = v \<and> (\<exists>c. crop_of_visitor (active_tracks (fst st)) v = Some c \<and> saved (save_cropped_face ev c v Entry))}"
  by (cases st) (auto simp add: loop2_body_def Let_def split: option.splits)

lemma loop2_logged:
  "logged_entry_this_visit (fst (loop2 ev vs st)) =
     logged_entry_this_visit (fst st) \<union>
     {w \<in> set vs. \<exists>c. crop_of_visitor (active_tracks (fst st)) w = Some c \<and> saved (save_cropped_face ev c w Entry)}"
proof (induction vs arbitrary: st)
  case Nil
  then show ?case by simp
next
  case (Cons v vs)
  show ?case by (simp add: Cons loop2_body_logged) blast
qed

lemma loop2_body_out:
  "snd (loop2_body ev v st) = snd st @ entry_emissions ev (fst st) v"
  by (cases st) (simp add: loop2_body_def Let_def entry_emissions_def entry_outcome_def split: option.splits)

lemma on_visitor_entry_emissions:
  "on_visitor w (entry_emissions ev s v) = (if w = v then entry_emissions ev s v else [])"
  by (simp add: entry_emissions_def on_visitor_def split: option.splits)

lemma entry_emissions_cong:
  "active_tracks s' = active_tracks s \<Longrightarrow> (w \<in> logged_entry_this_visit s' \<longleftrightarrow> w \<in> logged_entry_this_visit s)
   \<Longrightarrow> entry_emissions ev s' w = entry_emissions ev s w"
  by (simp add: entry_emissions_def)

lemma loop2_out_on_visitor:
  "distinct vs \<Longrightarrow> on_visitor w (snd (loop2 ev vs st)) =
     on_visitor w (snd st) @ (if w \<in> set vs then entry_emissions ev (fst st) w else [])"
proof (induction vs arbitrary: st)
  case Nil
  then show ?case by simp
next
  case (Cons v vs)
  have d: "distinct vs" and nv: "v \<notin> set vs" using Cons.prems by auto
  show ?case
  proof (cases "w \<in> set vs")
    case True
    then have "w \<noteq> v" using nv by auto
    then have "entry_emissions ev (fst (loop2_body ev v st)) w = entry_emissions ev (fst st) w"
      by (intro entry_emissions_cong) (auto simp: loop2_body_logged)
    with True \<open>w \<noteq> v\<close> show ?thesis
      by (simp add: Cons.IH [OF d] loop2_body_out on_visitor_entry_emissions)
  next
    case False
    then show ?thesis
      by (simp add: Cons.IH [OF d] loop2_body_out on_visitor_entry_emissions)
  qed
qed

lemma loop4_body_eq:
  "loop4_body cfg ev item (s, out) =
     (if expired cfg ev item then
        (s\<lparr>pending_exit := filter (\<lambda>p. fst p \<noteq> fst item) (pending_exit s),
           logged_entry_this_visit := logged_entry_this_visit s - {fst item}\<rparr>,
         out @ [exit_emission ev item])
      else (s, out))"
  by (cases item) (simp add: loop4_body_def expired_def exit_emission_def exit_outcome_def Let_def delete_as_filter)

lemma loop4_eq:
  "loop4 cfg ev items (s, out) =
     (s\<lparr>pending_exit := filter (\<lambda>p. fst p \<notin> fst ` set (filter (expired cfg ev) items)) (pending_exit s),
        logged_entry_this_visit := logged_entry_this_visit s - fst ` set (filter (expired cfg ev) items)\<rparr>,
      out @ map (exit_emission ev) (filter (expired cfg ev) items))"
proof (induction items arbitrary: s out)
  case Nil
  then show ?case by simp
next
  case (Cons item items)
  show ?case
  proof (cases "expired cfg ev item")
    case True
    have "filter (\<lambda>p. fst p \<notin> fst ` set (filter (expired cfg ev) items))
            (filter (\<lambda>p. fst p \<noteq> fst item) (pending_exit s))
          = filter (\<lambda>p. fst p \<notin> insert (fst item) (fst ` set (filter (expired cfg ev) items)))
              (pending_exit s)"
      by (induction "pending_exit s") auto
    moreover have "logged_entry_this_visit s - {fst item} - fst ` set (filter (expired cfg ev) items)
          = logged_entry_this_visit s - insert (fst item) (fst ` set (filter (expired cfg ev) items))"
      by auto
    ultimately show ?thesis using True
      by (simp add: loop4_body_eq Cons.IH)
  next
    case False
    then show ?thesis by (simp add: loop4_body_eq Cons.IH)
  qed
qed

lemma loop3_body_logged [simp]:
  "logged_entry_this_visit (loop3_body ev vis t s) = logged_entry_this_visit s"
  by (simp add: loop3_body_def Let_def split: option.splits)

lemma loop3_logged [simp]:
  "logged_entry_this_visit (loop3 ev vis ts s) = logged_entry_this_visit s"
  by (induction ts arbitrary: s) simp_all

lemma filter_key_absent: "map_of al t = None \<Longrightarrow> filter (\<lambda>p. fst p \<noteq> t) al = al"
  by (induction al) (auto split: if_splits)

lemma loop3_body_active:
  "active_tracks (loop3_body ev vis t s) = filter (\<lambda>p. fst p \<noteq> t) (active_tracks s)"
  by (simp add: loop3_body_def Let_def delete_as_filter filter_key_absent split: option.splits)

lemma loop3_active:
  "active_tracks (loop3 ev vis ts s) = filter (\<lambda>p. fst p \<notin> set ts) (active_tracks s)"
proof (induction ts arbitrary: s)
  case Nil
  then show ?case by simp
next
  case (Cons t ts)
  have "filter (\<lambda>p. fst p \<notin> set ts) (filter (\<lambda>p. fst p \<noteq> t) (active_tracks s))
        = filter (\<lambda>p. fst p \<notin> set (t # ts)) (active_tracks s)"
    by (induction "active_tracks s") auto
  then show ?case by (simp add: Cons.IH loop3_body_active)
qed

lemma loop3_body_pending_distinct:
  "distinct (map fst (pending_exit s)) \<Longrightarrow> distinct (map fst (pending_exit (loop3_body ev vis t s)))"
  by (simp add: loop3_body_def Let_def distinct_update split: option.splits)

lemma loop3_pending_distinct:
  "distinct (map fst (pending_exit s)) \<Longrightarrow> distinct (map fst (pending_exit (loop3 ev vis ts s)))"
  by (induction ts arbitrary: s) (simp_all add: loop3_body_pending_distinct)

lemma loop3_body_pending_other:
  "(\<forall>c. map_of (active_tracks s) t \<noteq> Some (w, c)) \<or> w \<in> set vis \<Longrightarrow>
   map_of (pending_exit (loop3_body ev vis t s)) w = map_of (pending_exit s) w"
  by (auto simp add: loop3_body_def Let_def update_conv' split: option.splits)

lemma map_of_filter_neq: "t' \<noteq> t \<Longrightarrow> map_of (filter (\<lambda>p. fst p \<noteq> t) al) t' = map_of al t'"
  by (induction al) auto

lemma map_of_filter_same: "map_of (filter (\<lambda>p. fst p \<noteq> t) al) t = None"
  by (induction al) auto

lemma loop3_pending_other:
  "w \<notin> lost_visitors s ts \<or> w \<in> set vis \<Longrightarrow>
   map_of (pending_exit (loop3 ev vis ts s)) w = map_of (pending_exit s) w"
proof (induction ts arbitrary: s)
  case Nil
  then show ?case by simp
next
  case (Cons t ts)
  have a: "(\<forall>c. map_of (active_tracks s) t \<noteq> Some (w, c)) \<or> w \<in> set vis"
    using Cons.prems by (auto simp: lost_visitors_def)
  have "w \<notin> lost_visitors (loop3_body ev vis t s) ts \<or> w \<in> set vis"
  proof (cases "w \<in> set vis")
    case True then show ?thesis by simp
  next
    case False
    then have nl: "w \<notin> lost_visitors s (t # ts)" using Cons.prems by simp
    have "w \<notin> lost_visitors (loop3_body ev vis t s) ts"
    proof
      assume "w \<in> lost_visitors (loop3_body ev vis t s) ts"
      then obtain t' c where t': "t' \<in> set ts"
        and m: "map_of (filter (\<lambda>p. fst p \<noteq> t) (active_tracks s)) t' = Some (w, c)"
        by (auto simp: lost_visitors_def loop3_body_active)
      then have "t' \<noteq> t" by (auto simp: map_of_filter_same)
      with m have "map_of (active_tracks s) t' = Some (w, c)" by (simp add: map_of_filter_neq)
      with t' nl show False by (auto simp: lost_visitors_def)
    qed
    then show ?thesis by simp
  qed
  then show ?case
    by (simp add: Cons.IH loop3_body_pending_other [OF a])
qed

lemma loop3_body_pending_keys:
  "fst ` set (pending_exit (loop3_body ev vis t s)) =
     fst ` set (pending_exit s) \<union> {v. v \<notin> set vis \<and> (\<exists>c. map_of (active_tracks s) t = Some (v, c))}"
  by (auto simp add: loop3_body_def Let_def dom_update split: option.splits)

lemma lost_visitors_Cons:
  "lost_visitors s (t # ts) =
     {v. \<exists>c. map_of (active_tracks s) t = Some (v, c)} \<union> lost_visitors (loop3_body ev vis t s) ts"
proof -
  have "\<And>t' x. t' \<noteq> t \<Longrightarrow> map_of (active_tracks (loop3_body ev vis t s)) t' = map_of (active_tracks s) t'"
    by (simp add: loop3_body_active map_of_filter_neq)
  moreover have "map_of (active_tracks (loop3_body ev vis t s)) t = None"
    by (simp add: loop3_body_active map_of_filter_same)
  ultimately show ?thesis
    unfolding lost_visitors_def
    apply (intro set_eqI iffI)
     apply (simp, metis)
    apply (simp, metis option.distinct(1))
    done
qed

lemma loop3_pending_keys:
  "fst ` set (pending_exit (loop3 ev vis ts s)) =
     fst ` set (pending_exit s) \<union> (lost_visitors s ts - set vis)"
proof (induction ts arbitrary: s)
  case Nil
  then show ?case by (simp add: lost_visitors_def)
next
  case (Cons t ts)
  show ?case
    by (simp add: Cons.IH loop3_body_pending_keys lost_visitors_Cons [of s t ts ev vis]) blast
qed

lemma loop1_body_cases:
  obtains (skip) conn' where
      "loop1_body cfg ev (t, c) (s, conn, ids, vis) = (s, conn', insert t ids, vis)"
      "map_of (active_tracks s) t = None"
  | (bound) v conn' where
      "loop1_body cfg ev (t, c) (s, conn, ids, vis) =
         (bind_track t v c s, conn', insert t ids, add_visitor v vis)"
      "map_of (active_tracks s) t = None \<or> (\<exists>c0. map_of (active_tracks s) t = Some (v, c0))"
proof (cases "map_of (active_tracks s) t")
  case (Some known)
  then have "loop1_body cfg ev (t, c) (s, conn, ids, vis) =
         (bind_track t (fst known) c s, conn, insert t ids, add_visitor (fst known) vis)"
    by (simp add: loop1_body_def)
  moreover have "\<exists>c0. map_of (active_tracks s) t = Some (fst known, c0)"
    using Some by (cases known) simp
  ultimately show ?thesis using bound by blast
next
  case None
  show ?thesis
  proof (cases "get_embedding ev c")
    case n: None
    with None have "loop1_body cfg ev (t, c) (s, conn, ids, vis) = (s, conn, insert t ids, vis)"
      by (simp add: loop1_body_def)
    with None show ?thesis using skip by blast
  next
    case (Some e)
    show ?thesis
    proof (cases "fst (find_visitor ev conn e (similarity_threshold cfg))")
      case (Some v)
      with None \<open>get_embedding ev c = Some e\<close>
      have "loop1_body cfg ev (t, c) (s, conn, ids, vis) =
              (bind_track t v c s, conn, insert t ids, add_visitor v vis)"
        by (simp add: loop1_body_def)
      with None show ?thesis using bound by blast
    next
      case n2: None
      obtain conn' r where r: "register_new_visitor ev conn e = (conn', r)"
        by (cases "register_new_visitor ev conn e")
      show ?thesis
      proof (cases r)
        case n3: None
        with None n2 r \<open>get_embedding ev c = Some e\<close>
        have "loop1_body cfg ev (t, c) (s, conn, ids, vis) = (s, conn', insert t ids, vis)"
          by (simp add: loop1_body_def)
        with None show ?thesis using skip by blast
      next
        case (Some v)
        with None n2 r \<open>get_embedding ev c = Some e\<close>
        have "loop1_body cfg ev (t, c) (s, conn, ids, vis) =
              (bind_track t v c s, conn', insert t ids, add_visitor v vis)"
          by (simp add: loop1_body_def)
        with None show ?thesis using bound by blast
      qed
    qed
  qed
qed

lemma bind_track_simps [simp]:
  "active_tracks (bind_track t v c s) = AList.update t (v, c) (active_tracks s)"
  "pending_exit (bind_track t v c s) = pending_exit s"
  "logged_entry_this_visit (bind_track t v c s) = logged_entry_this_visit s"
  by (simp_all add: bind_track_def)

lemma set_add_visitor [simp]: "set (add_visitor v vis) = insert v (set vis)"
  by (auto simp: add_visitor_def)

lemma distinct_add_visitor [simp]: "distinct (add_visitor v vis) = distinct vis"
  by (auto simp: add_visitor_def)

text \<open>What loop 1 keeps: an invariant that each body step keeps is kept by the loop.\<close>

lemma loop1_induct:
  assumes "P st"
    and "\<And>t c s conn ids vis. P (s, conn, ids, vis) \<Longrightarrow> P (loop1_body cfg ev (t, c) (s, conn, ids, vis))"
  shows "P (loop1 cfg ev tcs st)"
  using assms(1)
proof (induction tcs arbitrary: st)
  case Nil
  then show ?case by simp
next
  case (Cons tc tcs)
  obtain t c where tc: "tc = (t, c)" by (cases tc)
  obtain s conn ids vis where st: "st = (s, conn, ids, vis)" by (cases st) auto
  show ?case using Cons.IH [OF assms(2) [of s conn ids vis t c]] Cons.prems
    by (simp add: tc st)
qed

lemma loop1_pending_logged:
  "pending_exit (fst (loop1 cfg ev tcs st)) = pending_exit (fst st) \<and>
   logged_entry_this_visit (fst (loop1 cfg ev tcs st)) = logged_entry_this_visit (fst st)"
proof (rule loop1_induct [where P = "\<lambda>x. pending_exit (fst x) = pending_exit (fst st) \<and>
   logged_entry_this_visit (fst x) = logged_entry_this_visit (fst st)"])
  show "pending_exit (fst st) = pending_exit (fst st) \<and>
    logged_entry_this_visit (fst st) = logged_entry_this_visit (fst st)" by simp
next
  fix t :: track_id and c :: crop and s :: tracker and conn :: visitors_table
    and ids :: "track_id set" and vis :: "visitor_id list"
  assume a: "pending_exit (fst (s, conn, ids, vis)) = pending_exit (fst st) \<and>
       logged_entry_this_visit (fst (s, conn, ids, vis)) = logged_entry_this_visit (fst st)"
  show "pending_exit (fst (loop1_body cfg ev (t, c) (s, conn, ids, vis))) = pending_exit (fst st) \<and>
       logged_entry_this_visit (fst (loop1_body cfg ev (t, c) (s, conn, ids, vis))) =
       logged_entry_this_visit (fst st)"
    by (rule loop1_body_cases [of cfg ev t c s conn ids vis]) (use a in auto)
qed

lemma loop1_ids:
  "fst (snd (snd (loop1 cfg ev tcs st))) = fst (snd (snd st)) \<union> fst ` set tcs"
proof (induction tcs arbitrary: st)
  case Nil
  then show ?case by simp
next
  case (Cons tc tcs)
  have "fst (snd (snd (loop1_body cfg ev tc st))) = insert (fst tc) (fst (snd (snd st)))"
    by (simp add: loop1_body_def Let_def split: option.splits prod.splits)
  then show ?case by (simp add: Cons.IH)
qed

lemma loop1_vis_distinct:
  "distinct (snd (snd (snd st))) \<Longrightarrow> distinct (snd (snd (snd (loop1 cfg ev tcs st))))"
proof (rule loop1_induct [where P = "\<lambda>x. distinct (snd (snd (snd x)))"])
  fix t :: track_id and c :: crop and s :: tracker and conn :: visitors_table
    and ids :: "track_id set" and vis :: "visitor_id list"
  assume "distinct (snd (snd (snd (s, conn, ids, vis))))"
  then show "distinct (snd (snd (snd (loop1_body cfg ev (t, c) (s, conn, ids, vis)))))"
    by (rule_tac loop1_body_cases [of cfg ev t c s conn ids vis]) auto
qed

lemma loop1_keys_distinct:
  "distinct (map fst (active_tracks (fst st))) \<Longrightarrow>
   distinct (map fst (active_tracks (fst (loop1 cfg ev tcs st))))"
proof (rule loop1_induct [where P = "\<lambda>x. distinct (map fst (active_tracks (fst x)))"])
  fix t :: track_id and c :: crop and s :: tracker and conn :: visitors_table
    and ids :: "track_id set" and vis :: "visitor_id list"
  assume "distinct (map fst (active_tracks (fst (s, conn, ids, vis))))"
  then show "distinct (map fst (active_tracks (fst (loop1_body cfg ev (t, c) (s, conn, ids, vis)))))"
    by (rule_tac loop1_body_cases [of cfg ev t c s conn ids vis]) (auto simp: distinct_update)
qed



lemma set_update_distinct:
  "distinct (map fst al) \<Longrightarrow> p \<in> set (AList.update t x al) \<Longrightarrow> p = (t, x) \<or> (p \<in> set al \<and> fst p \<noteq> t)"
  by (induction al) (auto split: if_splits)

lemma map_of_None_keys: "map_of al t = None \<Longrightarrow> p \<in> set al \<Longrightarrow> fst p \<noteq> t"
  by (induction al) (auto split: if_splits)

lemma loop1_bound_visible:
  "bound_visible st \<Longrightarrow> bound_visible (loop1 cfg ev tcs st)"
proof (rule loop1_induct [where P = bound_visible])
  fix t :: track_id and c :: crop and s :: tracker and conn :: visitors_table
    and ids :: "track_id set" and vis :: "visitor_id list"
  assume a: "bound_visible (s, conn, ids, vis)"
  show "bound_visible (loop1_body cfg ev (t, c) (s, conn, ids, vis))"
  proof (rule loop1_body_cases [of cfg ev t c s conn ids vis])
    fix conn'
    assume "loop1_body cfg ev (t, c) (s, conn, ids, vis) = (s, conn', insert t ids, vis)"
      "map_of (active_tracks s) t = None"
    then show ?thesis using a by (auto simp: bound_visible_def dest: map_of_None_keys)
  next
    fix v conn'
    assume e: "loop1_body cfg ev (t, c) (s, conn, ids, vis) =
         (bind_track t v c s, conn', insert t ids, add_visitor v vis)"
    have d: "distinct (map fst (active_tracks s))" using a by (simp add: bound_visible_def)
    show ?thesis unfolding e bound_visible_def
    proof (intro conjI ballI impI)
      show "distinct (map fst (active_tracks (fst (bind_track t v c s, conn', insert t ids, add_visitor v vis))))"
        using d by (simp add: distinct_update)
    next
      fix p
      assume p: "p \<in> set (active_tracks (fst (bind_track t v c s, conn', insert t ids, add_visitor v vis)))"
        and k: "fst p \<in> fst (snd (snd (bind_track t v c s, conn', insert t ids, add_visitor v vis)))"
      from p have "p = (t, (v, c)) \<or> (p \<in> set (active_tracks s) \<and> fst p \<noteq> t)"
        using set_update_distinct [OF d] by simp
      then show "fst (snd p) \<in> set (snd (snd (snd (bind_track t v c s, conn', insert t ids, add_visitor v vis))))"
        using k a by (auto simp: bound_visible_def)
    qed
  qed
qed

lemma filter_update_key:
  "(\<And>y. \<not> P (t, y)) \<Longrightarrow> filter P (AList.update t x al) = filter P al"
proof (induction al)
  case Nil
  then show ?case by simp
next
  case (Cons p al)
  then show ?case by (cases p) auto
qed

lemma loop1_untouched:
  "filter (\<lambda>p. fst p \<notin> fst (snd (snd (loop1 cfg ev tcs st)))) (active_tracks (fst (loop1 cfg ev tcs st)))
   = filter (\<lambda>p. fst p \<notin> fst (snd (snd (loop1 cfg ev tcs st)))) (active_tracks (fst st))"
proof (induction tcs arbitrary: st)
  case Nil
  then show ?case by simp
next
  case (Cons tc tcs)
  obtain t c where tc: "tc = (t, c)" by (cases tc)
  obtain s conn ids vis where st: "st = (s, conn, ids, vis)" by (cases st) auto
  let ?F = "fst (snd (snd (loop1 cfg ev tcs (loop1_body cfg ev tc st))))"
  have tin: "t \<in> ?F"
    by (rule loop1_body_cases [of cfg ev t c s conn ids vis]) (simp_all add: loop1_ids tc st)
  have "filter (\<lambda>p. fst p \<notin> ?F) (active_tracks (fst (loop1_body cfg ev tc st)))
        = filter (\<lambda>p. fst p \<notin> ?F) (active_tracks (fst st))"
    by (rule loop1_body_cases [of cfg ev t c s conn ids vis])
       (use tin in \<open>simp_all add: tc st filter_update_key\<close>)
  with Cons.IH [of "loop1_body cfg ev tc st"] show ?case by simp
qed

lemma filter_visitor_update:
  "w \<noteq> v \<Longrightarrow> map_of al t = None \<or> (\<exists>c0. map_of al t = Some (w, c0)) \<Longrightarrow>
   filter (\<lambda>p. fst (snd p) = v) (AList.update t (w, c) al) = filter (\<lambda>p. fst (snd p) = v) al"
  by (induction al) (auto split: if_splits)

lemma loop1_vis_mono: "set (snd (snd (snd st))) \<subseteq> set (snd (snd (snd (loop1 cfg ev tcs st))))"
proof (rule loop1_induct [where P = "\<lambda>x. set (snd (snd (snd st))) \<subseteq> set (snd (snd (snd x)))"])
  fix t :: track_id and c :: crop and s :: tracker and conn :: visitors_table
    and ids :: "track_id set" and vis :: "visitor_id list"
  assume "set (snd (snd (snd st))) \<subseteq> set (snd (snd (snd (s, conn, ids, vis))))"
  then show "set (snd (snd (snd st))) \<subseteq> set (snd (snd (snd (loop1_body cfg ev (t, c) (s, conn, ids, vis)))))"
    by (rule_tac loop1_body_cases [of cfg ev t c s conn ids vis]) auto
qed simp

lemma loop1_invisible:
  "v \<notin> set (snd (snd (snd (loop1 cfg ev tcs st)))) \<Longrightarrow>
   filter (\<lambda>p. fst (snd p) = v) (active_tracks (fst (loop1 cfg ev tcs st)))
   = filter (\<lambda>p. fst (snd p) = v) (active_tracks (fst st))"
proof (induction tcs arbitrary: st)
  case Nil
  then show ?case by simp
next
  case (Cons tc tcs)
  obtain t c where tc: "tc = (t, c)" by (cases tc)
  obtain s conn ids vis where st: "st = (s, conn, ids, vis)" by (cases st) auto
  have nv: "v \<notin> set (snd (snd (snd (loop1_body cfg ev tc st))))"
    using Cons.prems loop1_vis_mono [of "loop1_body cfg ev tc st" cfg ev tcs] by auto
  have "filter (\<lambda>p. fst (snd p) = v) (active_tracks (fst (loop1_body cfg ev tc st)))
        = filter (\<lambda>p. fst (snd p) = v) (active_tracks (fst st))"
    by (rule loop1_body_cases [of cfg ev t c s conn ids vis])
       (use nv in \<open>auto simp add: tc st filter_visitor_update\<close>)
  with Cons.IH [of "loop1_body cfg ev tc st"] Cons.prems show ?case by simp
qed

lemma identify_ids:
  "fst (snd (snd (identify_tracks cfg (world f) (tracks f) s conn))) = frame_track_ids f"
  by (simp add: identify_tracks_def frame_track_ids_def loop1_ids split: option.splits)

lemma after_loop1_pending [simp]: "pending_exit (after_loop1 cfg f s conn) = pending_exit s"
  using loop1_pending_logged [of cfg "world f" _ "(s, conn, {}, [])"]
  by (simp add: after_loop1_def identify_tracks_def split: option.splits)

lemma after_loop1_logged [simp]:
  "logged_entry_this_visit (after_loop1 cfg f s conn) = logged_entry_this_visit s"
  using loop1_pending_logged [of cfg "world f" _ "(s, conn, {}, [])"]
  by (simp add: after_loop1_def identify_tracks_def split: option.splits)

lemma visible_distinct [simp]: "distinct (visible_visitors cfg f s conn)"
  using loop1_vis_distinct [of "(s, conn, {}, [])" cfg "world f"]
  by (simp add: visible_visitors_def identify_tracks_def split: option.splits)


lemma after_loop1_keys_distinct:
  "distinct (map fst (active_tracks s)) \<Longrightarrow> distinct (map fst (active_tracks (after_loop1 cfg f s conn)))"
  using loop1_keys_distinct [of "(s, conn, {}, [])" cfg "world f"]
  by (simp add: after_loop1_def identify_tracks_def split: option.splits)

lemma after_loop1_bound_visible:
  assumes "distinct (map fst (active_tracks s))"
    and "p \<in> set (active_tracks (after_loop1 cfg f s conn))" and "fst p \<in> frame_track_ids f"
  shows "fst (snd p) \<in> set (visible_visitors cfg f s conn)"
proof -
  have "bound_visible (s, conn, {}, [])" using assms(1) by (simp add: bound_visible_def)
  then have "bound_visible (identify_tracks cfg (world f) (tracks f) s conn)"
    by (auto simp: identify_tracks_def loop1_bound_visible split: option.splits)
  then show ?thesis using assms(2,3)
    by (simp add: bound_visible_def after_loop1_def visible_visitors_def identify_ids)
qed

lemma after_loop1_untouched:
  "filter (\<lambda>p. fst p \<notin> frame_track_ids f) (active_tracks (after_loop1 cfg f s conn))
   = filter (\<lambda>p. fst p \<notin> frame_track_ids f) (active_tracks s)"
proof (cases "tracks f")
  case None
  then show ?thesis by (simp add: after_loop1_def identify_tracks_def)
next
  case (Some tcs)
  show ?thesis
    using loop1_untouched [of cfg "world f" tcs "(s, conn, {}, [])"] identify_ids [of cfg f s conn] Some
    by (simp add: after_loop1_def identify_tracks_def)
qed

lemma after_loop1_invisible:
  "v \<notin> set (visible_visitors cfg f s conn) \<Longrightarrow>
   filter (\<lambda>p. fst (snd p) = v) (active_tracks (after_loop1 cfg f s conn))
   = filter (\<lambda>p. fst (snd p) = v) (active_tracks s)"
  using loop1_invisible [of v cfg "world f" _ "(s, conn, {}, [])"]
  by (simp add: visible_visitors_def after_loop1_def identify_tracks_def split: option.splits)

lemma after_loop2_active [simp]:
  "active_tracks (after_loop2 cfg f s conn) = active_tracks (after_loop1 cfg f s conn)"
  by (simp add: after_loop2_def)

lemma after_loop2_pending:
  "pending_exit (after_loop2 cfg f s conn) =
     filter (\<lambda>p. fst p \<notin> set (visible_visitors cfg f s conn)) (pending_exit s)"
  by (simp add: after_loop2_def loop2_pending)

lemma update_frame_eq:
  "update_frame cfg f (s, conn) =
     ((after_loop3 cfg f s conn
        \<lparr>pending_exit := filter (\<lambda>p. fst p \<notin> fst ` set (filter (expired cfg (world f)) (pending_exit (after_loop3 cfg f s conn))))
                            (pending_exit (after_loop3 cfg f s conn)),
         logged_entry_this_visit := logged_entry_this_visit (after_loop3 cfg f s conn)
            - fst ` set (filter (expired cfg (world f)) (pending_exit (after_loop3 cfg f s conn)))\<rparr>,
       fst (snd (identify_tracks cfg (world f) (tracks f) s conn))),
      snd (loop2 (world f) (visible_visitors cfg f s conn) (after_loop1 cfg f s conn, []))
        @ map (exit_emission (world f)) (filter (expired cfg (world f)) (pending_exit (after_loop3 cfg f s conn))))"
proof -
  obtain s1 conn1 ids vis where i: "identify_tracks cfg (world f) (tracks f) s conn = (s1, conn1, ids, vis)"
    by (cases "identify_tracks cfg (world f) (tracks f) s conn") auto
  have ids: "ids = frame_track_ids f" using identify_ids [of cfg f s conn] i by simp
  obtain s2 out2 where l2: "loop2 (world f) vis (s1, []) = (s2, out2)"
    by (cases "loop2 (world f) vis (s1, [])")
  show ?thesis
    by (simp add: update_frame_def i l2 Let_def loop4_eq after_loop3_def after_loop2_def
        after_loop1_def visible_visitors_def ids)
qed

lemma after_loop3_pending_keys:
  "fst ` set (pending_exit (after_loop3 cfg f s conn)) =
     (fst ` set (pending_exit s) \<union>
      lost_visitors (after_loop2 cfg f s conn) (lost_track_ids (after_loop2 cfg f s conn) (frame_track_ids f)))
     - set (visible_visitors cfg f s conn)"
  by (auto simp add: after_loop3_def loop3_pending_keys after_loop2_pending)

lemma lost_visitors_original:
  "lost_visitors (after_loop2 cfg f s conn) (lost_track_ids (after_loop2 cfg f s conn) (frame_track_ids f))
   \<subseteq> {v. \<exists>t c. (t, v, c) \<in> set (active_tracks s) \<and> t \<notin> frame_track_ids f}"
proof
  fix v
  assume "v \<in> lost_visitors (after_loop2 cfg f s conn) (lost_track_ids (after_loop2 cfg f s conn) (frame_track_ids f))"
  then obtain t c where t: "t \<notin> frame_track_ids f"
    and m: "map_of (active_tracks (after_loop1 cfg f s conn)) t = Some (v, c)"
    by (auto simp: lost_visitors_def lost_track_ids_def)
  from m have "(t, v, c) \<in> set (active_tracks (after_loop1 cfg f s conn))" by (rule map_of_SomeD)
  with t have "(t, v, c) \<in> set (filter (\<lambda>p. fst p \<notin> frame_track_ids f) (active_tracks (after_loop1 cfg f s conn)))"
    by simp
  then have "(t, v, c) \<in> set (active_tracks s)" by (simp add: after_loop1_untouched)
  with t show "v \<in> {v. \<exists>t c. (t, v, c) \<in> set (active_tracks s) \<and> t \<notin> frame_track_ids f}" by blast
qed

lemma update_frame_pending_keys:
  "fst ` set (pending_exit (fst (fst (update_frame cfg f (s, conn)))))
     \<subseteq> (fst ` set (pending_exit s)
         \<union> {v. \<exists>t c. (t, v, c) \<in> set (active_tracks s) \<and> t \<notin> frame_track_ids f})
       - set (visible_visitors cfg f s conn)"
proof -
  have sub: "fst ` set (pending_exit (fst (fst (update_frame cfg f (s, conn)))))
      \<subseteq> fst ` set (pending_exit (after_loop3 cfg f s conn))"
    by (auto simp add: update_frame_eq)
  have k: "fst ` set (pending_exit (after_loop3 cfg f s conn))
      \<subseteq> (fst ` set (pending_exit s)
         \<union> {v. \<exists>t c. (t, v, c) \<in> set (active_tracks s) \<and> t \<notin> frame_track_ids f})
       - set (visible_visitors cfg f s conn)"
    using lost_visitors_original [of cfg f s conn] by (auto simp add: after_loop3_pending_keys)
  from sub k show ?thesis by blast
qed

lemma after_loop3_active:
  "active_tracks (after_loop3 cfg f s conn) =
     filter (\<lambda>p. fst p \<in> frame_track_ids f) (active_tracks (after_loop1 cfg f s conn))"
proof -
  have "\<And>al::(track_id \<times> visitor_id \<times> crop) list.
     filter (\<lambda>p. fst p \<notin> set (remdups (filter (\<lambda>t. t \<notin> frame_track_ids f) (map fst al)))) al
     = filter (\<lambda>p. fst p \<in> frame_track_ids f) al"
    by (rule filter_cong) auto
  then show ?thesis
    by (simp add: after_loop3_def loop3_active lost_track_ids_def)
qed

lemma after_loop3_logged:
  "logged_entry_this_visit (after_loop3 cfg f s conn) = logged_entry_this_visit (after_loop2 cfg f s conn)"
  by (simp add: after_loop3_def)

lemma after_loop3_visible:
  assumes "distinct (map fst (active_tracks s))"
  shows "visitors_of (active_tracks (after_loop3 cfg f s conn)) \<subseteq> set (visible_visitors cfg f s conn)"
  using after_loop1_bound_visible [OF assms, of _ cfg f conn]
  by (auto simp: visitors_of_def after_loop3_active)

lemma after_loop3_pending_distinct:
  "distinct (map fst (pending_exit s)) \<Longrightarrow> distinct (map fst (pending_exit (after_loop3 cfg f s conn)))"
  by (simp add: after_loop3_def loop3_pending_distinct after_loop2_pending distinct_map_filter)

lemma update_frame_active:
  "active_tracks (fst (fst (update_frame cfg f (s, conn)))) =
     filter (\<lambda>p. fst p \<in> frame_track_ids f) (active_tracks (after_loop1 cfg f s conn))"
  by (simp add: update_frame_eq after_loop3_active)

lemma update_frame_pending:
  "pending_exit (fst (fst (update_frame cfg f (s, conn)))) =
     filter (\<lambda>p. fst p \<notin> fst ` set (filter (expired cfg (world f)) (pending_exit (after_loop3 cfg f s conn))))
        (pending_exit (after_loop3 cfg f s conn))"
  by (simp add: update_frame_eq)

lemma update_frame_logged:
  "logged_entry_this_visit (fst (fst (update_frame cfg f (s, conn)))) =
     logged_entry_this_visit (after_loop2 cfg f s conn)
       - fst ` set (filter (expired cfg (world f)) (pending_exit (after_loop3 cfg f s conn)))"
  by (simp add: update_frame_eq after_loop3_logged)

lemma update_frame_out:
  "snd (update_frame cfg f (s, conn)) =
     snd (loop2 (world f) (visible_visitors cfg f s conn) (after_loop1 cfg f s conn, []))
     @ map (exit_emission (world f)) (filter (expired cfg (world f)) (pending_exit (after_loop3 cfg f s conn)))"
  by (simp add: update_frame_eq)

lemma tracker_inv_update_frame:
  assumes "tracker_inv s"
  shows "tracker_inv (fst (fst (update_frame cfg f (s, conn))))"
proof -
  have da: "distinct (map fst (active_tracks s))" and dp: "distinct (map fst (pending_exit s))"
    using assms by (simp_all add: tracker_inv_def)
  have 1: "distinct (map fst (active_tracks (fst (fst (update_frame cfg f (s, conn))))))"
    using after_loop1_keys_distinct [OF da, of cfg f conn]
    by (simp add: update_frame_active distinct_map_filter)
  have 2: "distinct (map fst (pending_exit (fst (fst (update_frame cfg f (s, conn))))))"
    using after_loop3_pending_distinct [OF dp, of cfg f conn]
    by (simp add: update_frame_pending distinct_map_filter)
  have "visitors_of (active_tracks (fst (fst (update_frame cfg f (s, conn)))))
          \<subseteq> set (visible_visitors cfg f s conn)"
    using after_loop3_visible [OF da, of cfg f conn]
    by (simp add: update_frame_active after_loop3_active)
  then have 3: "visitors_of (active_tracks (fst (fst (update_frame cfg f (s, conn)))))
          \<inter> fst ` set (pending_exit (fst (fst (update_frame cfg f (s, conn))))) = {}"
    using update_frame_pending_keys [of cfg f s conn] by blast
  from 1 2 3 show ?thesis by (simp add: tracker_inv_def)
qed




lemma on_visitor_exits:
  "on_visitor v (map (exit_emission ev) items) = map (exit_emission ev) (filter (\<lambda>p. fst p = v) items)"
  by (induction items) (auto simp: on_visitor_def exit_emission_def)

lemma filter_key_distinct:
  "distinct (map fst al) \<Longrightarrow>
   filter (\<lambda>p. fst p = k) al = (case map_of al k of None \<Rightarrow> [] | Some x \<Rightarrow> [(k, x)])"
proof (induction al)
  case Nil
  then show ?case by simp
next
  case (Cons p al)
  show ?case
  proof (cases "fst p = k")
    case True
    then have "k \<notin> fst ` set al" using Cons.prems by auto
    then have "filter (\<lambda>p. fst p = k) al = []" by (auto simp: filter_empty_conv)
    with True show ?thesis by (cases p) auto
  next
    case False
    with Cons show ?thesis by (cases p) auto
  qed
qed

lemma filter_key_absent_Nil: "k \<notin> fst ` set al \<Longrightarrow> filter (\<lambda>p. fst p = k) al = []"
  by (auto simp: filter_empty_conv)

lemma map_of_filter_key: "P k \<Longrightarrow> map_of (filter (\<lambda>p. P (fst p)) al) k = map_of al k"
  by (induction al) auto

lemma frame_view_visible:
  assumes "v \<in> set (visible_visitors cfg f s conn)"
  shows "on_visitor v (snd (update_frame cfg f (s, conn)))
         = entry_emissions (world f) (after_loop1 cfg f s conn) v"
proof -
  have "v \<notin> fst ` set (pending_exit (after_loop3 cfg f s conn))"
    using assms by (simp add: after_loop3_pending_keys)
  then have "filter (\<lambda>p. fst p = v) (filter (expired cfg (world f)) (pending_exit (after_loop3 cfg f s conn))) = []"
    by (auto simp: filter_empty_conv)
  then show ?thesis using assms
    by (simp add: update_frame_out on_visitor_exits loop2_out_on_visitor)
qed

lemma frame_view_invisible:
  assumes "v \<notin> set (visible_visitors cfg f s conn)"
  shows "on_visitor v (snd (update_frame cfg f (s, conn)))
         = map (exit_emission (world f))
             (filter (\<lambda>p. fst p = v) (filter (expired cfg (world f)) (pending_exit (after_loop3 cfg f s conn))))"
  using assms by (simp add: update_frame_out on_visitor_exits loop2_out_on_visitor)

lemma after_loop2_logged:
  "logged_entry_this_visit (after_loop2 cfg f s conn) =
     logged_entry_this_visit s \<union>
     {w \<in> set (visible_visitors cfg f s conn).
        \<exists>c. crop_of_visitor (active_tracks (after_loop1 cfg f s conn)) w = Some c
           \<and> saved (save_cropped_face (world f) c w Entry)}"
  by (simp add: after_loop2_def loop2_logged)

lemma lost_visitors_bound: "lost_visitors s ts \<subseteq> visitors_of (active_tracks s)"
  by (auto simp: lost_visitors_def visitors_of_def dest!: map_of_SomeD intro!: image_eqI)

lemma visitors_of_filter: "v \<in> visitors_of al \<longleftrightarrow> filter (\<lambda>p. fst (snd p) = v) al \<noteq> []"
  by (auto simp: visitors_of_def filter_empty_conv)

lemma invisible_unbound:
  assumes "v \<notin> set (visible_visitors cfg f s conn)" and "v \<notin> visitors_of (active_tracks s)"
  shows "v \<notin> visitors_of (active_tracks (after_loop1 cfg f s conn))"
  using assms after_loop1_invisible [of v cfg f s conn] by (simp add: visitors_of_filter)

lemma after_loop3_pending_kept:
  assumes "v \<notin> set (visible_visitors cfg f s conn)" and "v \<notin> visitors_of (active_tracks s)"
  shows "map_of (pending_exit (after_loop3 cfg f s conn)) v = map_of (pending_exit s) v"
proof -
  have "v \<notin> lost_visitors (after_loop2 cfg f s conn)
             (lost_track_ids (after_loop2 cfg f s conn) (frame_track_ids f))"
    using invisible_unbound [OF assms] lost_visitors_bound by fastforce
  then have "map_of (pending_exit (after_loop3 cfg f s conn)) v
           = map_of (pending_exit (after_loop2 cfg f s conn)) v"
    by (simp add: after_loop3_def loop3_pending_other)
  also have "\<dots> = map_of (pending_exit s) v"
    using assms(1) map_of_filter_key [of "\<lambda>k. k \<notin> set (visible_visitors cfg f s conn)" v]
    by (simp add: after_loop2_pending)
  finally show ?thesis .
qed


lemma entry_emissions_length: "length (entry_emissions ev s v) \<le> 1"
  by (simp add: entry_emissions_def split: option.splits)

lemma entry_emissions_types: "e \<in> set (entry_emissions ev s v) \<Longrightarrow> em_type e = Entry \<and> em_visitor e = v"
  by (auto simp add: entry_emissions_def split: option.splits if_splits)

lemma update_frame_active_keys:
  "fst ` set (active_tracks (fst (fst (update_frame cfg f (s, conn))))) \<subseteq> frame_track_ids f"
  by (auto simp: update_frame_active)



lemma loop1_body_found:
  "map_of (active_tracks s0) t = None \<Longrightarrow> get_embedding ev c = Some e \<Longrightarrow>
   fst (find_visitor ev conn0 e (similarity_threshold cfg)) = Some v \<Longrightarrow>
   loop1_body cfg ev (t, c) (s0, conn0, ids, vis)
     = (bind_track t v c s0, conn0, insert t ids, add_visitor v vis)"
  by (simp add: loop1_body_def)


lemma best_row_None: "best_row rs = None \<longleftrightarrow> rs = []"
  by (induction rs) (auto split: option.splits)

lemma best_row_Some:
  "best_row rs = Some b \<Longrightarrow> b \<in> set rs \<and> (\<forall>r \<in> set rs. snd r \<le> snd b)"
proof (induction rs arbitrary: b)
  case Nil
  then show ?case by simp
next
  case (Cons r rs)
  show ?case
  proof (cases "best_row rs")
    case None
    then have "rs = []" by (simp add: best_row_None)
    with Cons.prems None show ?thesis by simp
  next
    case (Some b')
    with Cons.IH [OF Some] Cons.prems show ?thesis
      by (auto split: if_splits)
  qed
qed

lemma find_visitor_Some:
  assumes "find_visitor ev conn e threshold = (Some v, sim)"
  shows "\<not> find_raises ev e \<and> (v, sim) \<in> set (similarity_rows ev conn e) \<and> threshold \<le> sim \<and>
         (\<forall>r \<in> set (similarity_rows ev conn e). snd r \<le> sim)"
proof -
  have nr: "\<not> find_raises ev e" using assms by (auto simp: find_visitor_def split: if_splits)
  then obtain b where b: "best_row (filter (\<lambda>r. threshold \<le> snd r) (similarity_rows ev conn e)) = Some b"
    and v: "fst b = v" "snd b = sim"
    using assms by (auto simp: find_visitor_def split: option.splits)
  from best_row_Some [OF b] have m: "b \<in> set (similarity_rows ev conn e)" "threshold \<le> snd b"
    and mx: "\<forall>r \<in> set (similarity_rows ev conn e). threshold \<le> snd r \<longrightarrow> snd r \<le> snd b"
    by auto
  have "\<forall>r \<in> set (similarity_rows ev conn e). snd r \<le> sim"
  proof
    fix r assume r: "r \<in> set (similarity_rows ev conn e)"
    show "snd r \<le> sim"
    proof (cases "threshold \<le> snd r")
      case True
      with mx r v show ?thesis by auto
    next
      case False
      with m(2) v show ?thesis by auto
    qed
  qed
  moreover have "(v, sim) \<in> set (similarity_rows ev conn e)" using m(1) v by (cases b) auto
  ultimately show ?thesis using nr m(2) v by auto
qed

lemma find_visitor_None:
  assumes "fst (find_visitor ev conn e threshold) = None"
  shows "find_raises ev e \<or> (\<forall>r \<in> set (similarity_rows ev conn e). snd r < threshold)"
proof (cases "find_raises ev e")
  case True
  then show ?thesis by simp
next
  case False
  with assms have "best_row (filter (\<lambda>r. threshold \<le> snd r) (similarity_rows ev conn e)) = None"
    by (auto simp: find_visitor_def split: option.splits)
  then have "filter (\<lambda>r. threshold \<le> snd r) (similarity_rows ev conn e) = []"
    by (simp add: best_row_None)
  then show ?thesis by (auto simp: filter_empty_conv not_le)
qed

lemma loop1_body_register:
  "map_of (active_tracks s) t = None \<Longrightarrow> get_embedding ev c = Some e \<Longrightarrow>
   fst (find_visitor ev conn e (similarity_threshold cfg)) = None \<Longrightarrow>
   loop1_body cfg ev (t, c) (s, conn, ids, vis) =
     (case register_new_visitor ev conn e of
        (conn', None) \<Rightarrow> (s, conn', insert t ids, vis)
      | (conn', Some v) \<Rightarrow> (bind_track t v c s, conn', insert t ids, add_visitor v vis))"
  by (simp add: loop1_body_def Let_def)

lemma same_inputs_repaired: "same_inputs ev (sinks_repaired ev)"
  by (simp add: same_inputs_def sinks_repaired_def)

lemma find_visitor_same:
  "same_inputs ev ev' \<Longrightarrow> find_visitor ev' conn e th = find_visitor ev conn e th"
  unfolding same_inputs_def find_visitor_def similarity_rows_def by auto

lemma register_same:
  "same_inputs ev ev' \<Longrightarrow> register_new_visitor ev' conn e = register_new_visitor ev conn e"
  unfolding same_inputs_def register_new_visitor_def by auto

lemma loop1_body_same:
  assumes "same_inputs ev ev'"
  shows "loop1_body cfg ev' tc st = loop1_body cfg ev tc st"
proof -
  have "get_embedding ev' = get_embedding ev" using assms by (simp add: same_inputs_def)
  then show ?thesis
    unfolding loop1_body_def
    by (simp add: find_visitor_same [OF assms] register_same [OF assms] Let_def
        split: option.splits prod.splits)
qed

lemma loop1_same: "same_inputs ev ev' \<Longrightarrow> loop1 cfg ev' tcs st = loop1 cfg ev tcs st"
  by (induction tcs arbitrary: st) (simp_all add: loop1_body_same)

lemma identify_same:
  "same_inputs ev ev' \<Longrightarrow> identify_tracks cfg ev' tr s conn = identify_tracks cfg ev tr s conn"
  by (simp add: identify_tracks_def loop1_same split: option.splits)

lemma loop2_body_same:
  assumes "same_inputs ev ev'" and "map em_content outp = map em_content out"
  shows "fst (loop2_body ev' v (s, outp)) = fst (loop2_body ev v (s, out)) \<and>
         map em_content (snd (loop2_body ev' v (s, outp))) = map em_content (snd (loop2_body ev v (s, out)))"
proof -
  have "\<And>c. saved (save_cropped_face ev' c v Entry) = saved (save_cropped_face ev c v Entry)"
    using assms(1) by (simp add: same_inputs_def)
  then show ?thesis using assms(2)
    by (simp add: loop2_body_def Let_def em_content_def split: option.splits)
qed

lemma loop2_same:
  assumes "same_inputs ev ev'"
  shows "map em_content outp = map em_content out \<Longrightarrow>
         fst (loop2 ev' vs (s, outp)) = fst (loop2 ev vs (s, out)) \<and>
         map em_content (snd (loop2 ev' vs (s, outp))) = map em_content (snd (loop2 ev vs (s, out)))"
proof (induction vs arbitrary: s out outp)
  case Nil
  then show ?case by simp
next
  case (Cons v vs)
  obtain s1 out1 where a: "loop2_body ev v (s, out) = (s1, out1)" by (cases "loop2_body ev v (s, out)")
  obtain s1' out1p where b: "loop2_body ev' v (s, outp) = (s1', out1p)" by (cases "loop2_body ev' v (s, outp)")
  from loop2_body_same [OF assms Cons.prems, of v s] a b
  have "s1' = s1" "map em_content out1p = map em_content out1" by simp_all
  with Cons.IH [of out1p out1 s1] a b show ?case by simp
qed

lemma loop3_body_same: "same_inputs ev ev' \<Longrightarrow> loop3_body ev' vis t s = loop3_body ev vis t s"
  unfolding same_inputs_def loop3_body_def by (auto simp: Let_def split: option.splits)

lemma loop3_same: "same_inputs ev ev' \<Longrightarrow> loop3 ev' vis ts s = loop3 ev vis ts s"
  by (induction ts arbitrary: s) (simp_all add: loop3_body_same)

lemma expired_same: "same_inputs ev ev' \<Longrightarrow> expired cfg ev' = expired cfg ev"
  unfolding same_inputs_def expired_def fun_eq_iff by auto

lemma em_content_exit_emission [simp]: "em_content (exit_emission ev item) = (fst item, Exit, snd (snd item))"
  by (simp add: em_content_def exit_emission_def)

lemma update_frame_same:
  assumes "same_inputs ev ev'"
  shows "fst (update_frame cfg \<lparr>tracks = tr, world = ev'\<rparr> st) = fst (update_frame cfg \<lparr>tracks = tr, world = ev\<rparr> st) \<and>
         map em_content (snd (update_frame cfg \<lparr>tracks = tr, world = ev'\<rparr> st))
           = map em_content (snd (update_frame cfg \<lparr>tracks = tr, world = ev\<rparr> st))"
proof -
  obtain s conn where st: "st = (s, conn)" by (cases st)
  obtain s1 conn1 ids vis where i: "identify_tracks cfg ev tr s conn = (s1, conn1, ids, vis)"
    by (cases "identify_tracks cfg ev tr s conn") auto
  obtain s2 out2 where a: "loop2 ev vis (s1, []) = (s2, out2)" by (cases "loop2 ev vis (s1, [])")
  obtain s2' out2p where b: "loop2 ev' vis (s1, []) = (s2', out2p)" by (cases "loop2 ev' vis (s1, [])")
  from loop2_same [OF assms, of "[]" "[]" vis s1] a b
  have e: "s2' = s2" "map em_content out2p = map em_content out2" by simp_all
  show ?thesis
    using e by (simp add: st update_frame_def identify_same [OF assms] i a b Let_def
        loop3_same [OF assms] loop4_eq expired_same [OF assms])
qed

lemma entry_emissions_outcome:
  "e \<in> set (entry_emissions ev s v) \<Longrightarrow> em_outcome e = sink_outcome ev e"
  by (auto simp: entry_emissions_def entry_outcome_def sink_outcome_def log_event_def
      split: option.splits if_splits)

lemma loop2_outcomes:
  "\<forall>e \<in> set (snd st). em_outcome e = sink_outcome ev e \<Longrightarrow>
   \<forall>e \<in> set (snd (loop2 ev vs st)). em_outcome e = sink_outcome ev e"
proof (induction vs arbitrary: st)
  case Nil
  then show ?case by simp
next
  case (Cons v vs)
  have "\<forall>e \<in> set (snd (loop2_body ev v st)). em_outcome e = sink_outcome ev e"
    using Cons.prems entry_emissions_outcome by (auto simp: loop2_body_out)
  then show ?case using Cons.IH by simp
qed

lemma exit_emission_outcome: "em_outcome (exit_emission ev item) = sink_outcome ev (exit_emission ev item)"
  by (simp add: exit_emission_def exit_outcome_def sink_outcome_def log_event_def)

lemma update_frame_outcomes:
  "e \<in> set (snd (update_frame cfg f (s, conn))) \<Longrightarrow> em_outcome e = sink_outcome (world f) e"
  using loop2_outcomes [of "(after_loop1 cfg f s conn, [])" "world f" "visible_visitors cfg f s conn"]
  by (auto simp: update_frame_out exit_emission_outcome)

lemma entry_image_failure:
  assumes "v \<in> set (visible_visitors cfg f s conn)" and "v \<notin> logged_entry_this_visit s"
    and "crop_of_visitor (active_tracks (after_loop1 cfg f s conn)) v = Some c"
    and "\<not> saved (save_cropped_face (world f) c v Entry)"
  shows "v \<notin> logged_entry_this_visit (fst (fst (update_frame cfg f (s, conn)))) \<and>
         on_visitor v (snd (update_frame cfg f (s, conn))) = [Emission v Entry c ImageFailed]"
proof -
  have "v \<notin> logged_entry_this_visit (after_loop2 cfg f s conn)"
    using assms by (simp add: after_loop2_logged)
  then have 1: "v \<notin> logged_entry_this_visit (fst (fst (update_frame cfg f (s, conn))))"
    by (simp add: update_frame_logged)
  have 2: "on_visitor v (snd (update_frame cfg f (s, conn))) = [Emission v Entry c ImageFailed]"
    using assms by (simp add: frame_view_visible entry_emissions_def entry_outcome_def)
  from 1 2 show ?thesis by simp
qed

lemma filter_expired_key:
  assumes "distinct (map fst al)"
  shows "filter (\<lambda>p. fst p = v) (filter (expired cfg ev) al) =
           (case map_of al v of
              None \<Rightarrow> []
            | Some x \<Rightarrow> if expired cfg ev (v, x) then [(v, x)] else [])"
proof -
  have "filter (\<lambda>p. fst p = v) (filter (expired cfg ev) al)
        = filter (expired cfg ev) (filter (\<lambda>p. fst p = v) al)"
    by (induction al) auto
  then show ?thesis by (simp add: filter_key_distinct [OF assms] split: option.splits)
qed

lemma expired_keys_member:
  assumes "distinct (map fst al)"
  shows "v \<in> fst ` set (filter (expired cfg ev) al) \<longleftrightarrow>
           (\<exists>x. map_of al v = Some x \<and> expired cfg ev (v, x))"
proof -
  have "(\<exists>x. map_of al v = Some x \<and> expired cfg ev (v, x))
        \<longleftrightarrow> (\<exists>x. (v, x) \<in> set al \<and> expired cfg ev (v, x))"
    using assms by simp
  then show ?thesis by force
qed


lemma invisible_frame:
  assumes "v \<notin> set (visible_visitors cfg f s conn)" and "distinct (map fst (pending_exit s))"
  shows "on_visitor v (snd (update_frame cfg f (s, conn))) =
           (case map_of (pending_exit (after_loop3 cfg f s conn)) v of
              None \<Rightarrow> []
            | Some x \<Rightarrow> if expired cfg (world f) (v, x) then [exit_emission (world f) (v, x)] else [])"
    and "map_of (pending_exit (fst (fst (update_frame cfg f (s, conn))))) v =
           (case map_of (pending_exit (after_loop3 cfg f s conn)) v of
              None \<Rightarrow> None
            | Some x \<Rightarrow> if expired cfg (world f) (v, x) then None else Some x)"
    and "v \<in> logged_entry_this_visit (fst (fst (update_frame cfg f (s, conn)))) \<longleftrightarrow>
           v \<in> logged_entry_this_visit s \<and>
           \<not> (\<exists>x. map_of (pending_exit (after_loop3 cfg f s conn)) v = Some x \<and> expired cfg (world f) (v, x))"
proof -
  have d: "distinct (map fst (pending_exit (after_loop3 cfg f s conn)))"
    using assms(2) by (rule after_loop3_pending_distinct)
  show "on_visitor v (snd (update_frame cfg f (s, conn))) =
           (case map_of (pending_exit (after_loop3 cfg f s conn)) v of
              None \<Rightarrow> []
            | Some x \<Rightarrow> if expired cfg (world f) (v, x) then [exit_emission (world f) (v, x)] else [])"
    unfolding frame_view_invisible [OF assms(1)] filter_expired_key [OF d]
    by (simp split: option.splits)
  show "map_of (pending_exit (fst (fst (update_frame cfg f (s, conn))))) v =
           (case map_of (pending_exit (after_loop3 cfg f s conn)) v of
              None \<Rightarrow> None
            | Some x \<Rightarrow> if expired cfg (world f) (v, x) then None else Some x)"
  proof (cases "v \<in> fst ` set (filter (expired cfg (world f)) (pending_exit (after_loop3 cfg f s conn)))")
    case True
    then have "map_of (pending_exit (fst (fst (update_frame cfg f (s, conn))))) v = None"
      unfolding update_frame_pending map_of_eq_None_iff by force
    moreover from True obtain x where "map_of (pending_exit (after_loop3 cfg f s conn)) v = Some x"
      "expired cfg (world f) (v, x)"
      using expired_keys_member [OF d, of v cfg "world f"] by auto
    ultimately show ?thesis by simp
  next
    case False
    then have "map_of (pending_exit (fst (fst (update_frame cfg f (s, conn))))) v
               = map_of (pending_exit (after_loop3 cfg f s conn)) v"
      using map_of_filter_key [of "\<lambda>k. k \<notin> fst ` set (filter (expired cfg (world f)) (pending_exit (after_loop3 cfg f s conn)))" v]
      by (simp add: update_frame_pending)
    moreover from False have "\<not> (\<exists>x. map_of (pending_exit (after_loop3 cfg f s conn)) v = Some x
        \<and> expired cfg (world f) (v, x))"
      using expired_keys_member [OF d, of v cfg "world f"] by simp
    ultimately show ?thesis by (auto split: option.splits)
  qed
  show "v \<in> logged_entry_this_visit (fst (fst (update_frame cfg f (s, conn)))) \<longleftrightarrow>
           v \<in> logged_entry_this_visit s \<and>
           \<not> (\<exists>x. map_of (pending_exit (after_loop3 cfg f s conn)) v = Some x \<and> expired cfg (world f) (v, x))"
    unfolding update_frame_logged Diff_iff expired_keys_member [OF d]
    using assms(1) by (simp add: after_loop2_logged)
qed

lemma tracker_inv_unbound:
  "tracker_inv s \<Longrightarrow> map_of (pending_exit s) v = Some x \<Longrightarrow> v \<notin> visitors_of (active_tracks s)"
  by (auto simp: tracker_inv_def dest!: map_of_SomeD) (metis IntI empty_iff fst_conv image_eqI)

lemma quiet_frame:
  assumes "tracker_inv s" and "map_of (pending_exit s) v = Some (ts, c)"
    and "v \<notin> set (visible_visitors cfg f s conn)"
    and "sweep_time (world f) - ts \<le> exit_timeout cfg"
  shows "on_visitor v (snd (update_frame cfg f (s, conn))) = [] \<and>
         map_of (pending_exit (fst (fst (update_frame cfg f (s, conn))))) v = Some (ts, c) \<and>
         (v \<in> logged_entry_this_visit (fst (fst (update_frame cfg f (s, conn))))
            \<longleftrightarrow> v \<in> logged_entry_this_visit s)"
proof -
  have d: "distinct (map fst (pending_exit s))" using assms(1) by (simp add: tracker_inv_def)
  have k: "map_of (pending_exit (after_loop3 cfg f s conn)) v = Some (ts, c)"
    using after_loop3_pending_kept [OF assms(3) tracker_inv_unbound [OF assms(1,2)]] assms(2) by simp
  have ne: "\<not> expired cfg (world f) (v, ts, c)" using assms(4) by (simp add: expired_def)
  show ?thesis using invisible_frame [OF assms(3) d] k ne by simp
qed


lemma reappear_frame:
  assumes "v \<in> set (visible_visitors cfg f s conn)"
  shows "Exit \<notin> em_type ` set (on_visitor v (snd (update_frame cfg f (s, conn)))) \<and>
         v \<notin> fst ` set (pending_exit (fst (fst (update_frame cfg f (s, conn))))) \<and>
         (v \<in> logged_entry_this_visit s \<longrightarrow>
            on_visitor v (snd (update_frame cfg f (s, conn))) = [] \<and>
            v \<in> logged_entry_this_visit (fst (fst (update_frame cfg f (s, conn)))))"
proof -
  have view: "on_visitor v (snd (update_frame cfg f (s, conn)))
              = entry_emissions (world f) (after_loop1 cfg f s conn) v"
    using assms by (rule frame_view_visible)
  have 1: "Exit \<notin> em_type ` set (on_visitor v (snd (update_frame cfg f (s, conn))))"
    unfolding view using entry_emissions_types by fastforce
  have 2: "v \<notin> fst ` set (pending_exit (fst (fst (update_frame cfg f (s, conn)))))"
    using update_frame_pending_keys [of cfg f s conn] assms by blast
  have np: "v \<notin> fst ` set (pending_exit (after_loop3 cfg f s conn))"
    using assms by (simp add: after_loop3_pending_keys)
  have 3: "v \<in> logged_entry_this_visit s \<longrightarrow>
            on_visitor v (snd (update_frame cfg f (s, conn))) = [] \<and>
            v \<in> logged_entry_this_visit (fst (fst (update_frame cfg f (s, conn))))"
    unfolding view using np by (auto simp: entry_emissions_def update_frame_logged after_loop2_logged)
  from 1 2 3 show ?thesis by blast
qed


lemma run_Cons:
  "run cfg (f # fs) (st, tr) = run cfg fs (fst (update_frame cfg f st), tr @ snd (update_frame cfg f st))"
  by (simp split: prod.splits)

lemma run_trace:
  "fst (run cfg fs (st, tr)) = fst (run cfg fs (st, [])) \<and>
   snd (run cfg fs (st, tr)) = tr @ snd (run cfg fs (st, []))"
proof (induction fs arbitrary: st tr)
  case Nil
  then show ?case by simp
next
  case (Cons f fs)
  show ?case
    using Cons.IH [of "fst (update_frame cfg f st)" "tr @ snd (update_frame cfg f st)"]
      Cons.IH [of "fst (update_frame cfg f st)" "snd (update_frame cfg f st)"]
    by (simp only: run_Cons append_Nil append_assoc)
qed

lemma run_append:
  "run cfg (fs @ gs) st = run cfg gs (run cfg fs st)"
proof (induction fs arbitrary: st)
  case Nil
  then show ?case by simp
next
  case (Cons f fs)
  obtain a tr where st: "st = (a, tr)" by (cases st)
  show ?case unfolding st append_Cons run_Cons by (rule Cons.IH)
qed

lemma run_snoc:
  "run cfg (fs @ [f]) (st, []) =
     (fst (update_frame cfg f (fst (run cfg fs (st, [])))),
      snd (run cfg fs (st, [])) @ snd (update_frame cfg f (fst (run cfg fs (st, [])))))"
proof -
  obtain a tr where r: "run cfg fs (st, []) = (a, tr)" by (cases "run cfg fs (st, [])")
  show ?thesis by (simp add: run_append r split: prod.splits)
qed

lemma run_first:
  "run cfg (f # fs) (st, []) =
     (fst (run cfg fs (fst (update_frame cfg f st), [])),
      snd (update_frame cfg f st) @ snd (run cfg fs (fst (update_frame cfg f st), [])))"
  using run_trace [of cfg fs "fst (update_frame cfg f st)" "snd (update_frame cfg f st)"]
  by (simp only: run_Cons append_Nil prod_eq_iff fst_conv snd_conv)


lemma quiet_run:
  shows "tracker_inv s \<Longrightarrow> map_of (pending_exit s) v = Some (ts, c) \<Longrightarrow>
         absent_during cfg v fs (s, conn) \<Longrightarrow>
         \<forall>g \<in> set fs. sweep_time (world g) - ts \<le> exit_timeout cfg \<Longrightarrow>
         on_visitor v (snd (run cfg fs ((s, conn), []))) = [] \<and>
         map_of (pending_exit (fst (fst (run cfg fs ((s, conn), []))))) v = Some (ts, c) \<and>
         (v \<in> logged_entry_this_visit (fst (fst (run cfg fs ((s, conn), []))))
            \<longleftrightarrow> v \<in> logged_entry_this_visit s)"
proof (induction fs arbitrary: s conn)
  case Nil
  then show ?case by simp
next
  case (Cons f fs)
  obtain s1 conn1 where u: "fst (update_frame cfg f (s, conn)) = (s1, conn1)"
    by (cases "fst (update_frame cfg f (s, conn))")
  have s1: "s1 = fst (fst (update_frame cfg f (s, conn)))" using u by simp
  have nv: "v \<notin> set (visible_visitors cfg f s conn)" using Cons.prems(3) by simp
  have t: "sweep_time (world f) - ts \<le> exit_timeout cfg" using Cons.prems(4) by simp
  note q = quiet_frame [OF Cons.prems(1,2) nv t]
  have i1: "tracker_inv s1" unfolding s1 by (rule tracker_inv_update_frame [OF Cons.prems(1)])
  have p1: "map_of (pending_exit s1) v = Some (ts, c)" unfolding s1 using q by simp
  have a1: "absent_during cfg v fs (s1, conn1)" using Cons.prems(3) u by simp
  have t1: "\<forall>g \<in> set fs. sweep_time (world g) - ts \<le> exit_timeout cfg" using Cons.prems(4) by simp
  note ih = Cons.IH [OF i1 p1 a1 t1]
  show ?case unfolding run_first u using ih q by (simp add: s1)
qed








lemma events_of_append [simp]: "events_of v (xs @ ys) = events_of v xs @ events_of v ys"
  by (simp add: events_of_def logged_events_def)

lemma events_of_Nil [simp]: "events_of v [] = []"
  by (simp add: events_of_def logged_events_def)


lemma log_event_not_failed [simp]: "log_event ev v k \<noteq> ImageFailed"
  by (simp add: log_event_def)




















section \<open>Properties of the frame update\<close>

text \<open>
  C3. After a frame update no visitor is both in the frame's set of visible visitors and a
  key of \<^verbatim>\<open>pending_exit\<close>: loop 2 cancels the pending entry of every visible visitor, and
  the keys left after the update are old keys or visitors of lost tracks (tracks of
  \<^verbatim>\<open>active_tracks\<close> that the frame does not report), none of them visible.
\<close>

theorem visible_pending_disjoint:
  "set (visible_visitors cfg f s conn) \<inter>
     fst ` set (pending_exit (fst (fst (update_frame cfg f (s, conn))))) = {} \<and>
   fst ` set (pending_exit (fst (fst (update_frame cfg f (s, conn)))))
     \<subseteq> (fst ` set (pending_exit s)
         \<union> {v. \<exists>t c. (t, v, c) \<in> set (active_tracks s) \<and> t \<notin> frame_track_ids f})
       - set (visible_visitors cfg f s conn)"
  using update_frame_pending_keys [of cfg f s conn] by blast

theorem visible_pending_disjoint_witness:
  "visible_visitors demo_cfg demo_frame demo_s demo_conn = [7] \<and>
   pending_exit (fst (fst (update_frame demo_cfg demo_frame (demo_s, demo_conn)))) = [(8, 0, 6)] \<and>
   set (visible_visitors demo_cfg demo_frame demo_s demo_conn) \<inter>
     fst ` set (pending_exit (fst (fst (update_frame demo_cfg demo_frame (demo_s, demo_conn))))) = {}"
  using visible_pending_disjoint [of demo_cfg demo_frame demo_s demo_conn]
  by (simp add: model_defs demo_defs)

text \<open>
  C8. Track churn is transparent. When a binding \<open>a\<close> that was bound to visitor \<open>v\<close> is
  absent from the frame while \<open>v\<close> is among the frame's visible visitors (another binding of
  the frame resolves to \<open>v\<close>), the frame emits no exit for \<open>v\<close>, \<open>v\<close> is not pending
  afterwards, the old binding is gone, and at most one entry emission is made for \<open>v\<close>,
  none at all when \<open>v\<close> has already entered.
\<close>

theorem track_churn_transparent:
  assumes "(a, v, c) \<in> set (active_tracks s)" and "a \<notin> frame_track_ids f"
    and "v \<in> set (visible_visitors cfg f s conn)"
  shows "Exit \<notin> em_type ` set (on_visitor v (snd (update_frame cfg f (s, conn)))) \<and>
         v \<notin> fst ` set (pending_exit (fst (fst (update_frame cfg f (s, conn))))) \<and>
         a \<notin> fst ` set (active_tracks (fst (fst (update_frame cfg f (s, conn))))) \<and>
         length (on_visitor v (snd (update_frame cfg f (s, conn)))) \<le> 1 \<and>
         (v \<in> logged_entry_this_visit s \<longrightarrow> on_visitor v (snd (update_frame cfg f (s, conn))) = [])"
proof -
  have view: "on_visitor v (snd (update_frame cfg f (s, conn)))
              = entry_emissions (world f) (after_loop1 cfg f s conn) v"
    using assms(3) by (rule frame_view_visible)
  have 1: "Exit \<notin> em_type ` set (on_visitor v (snd (update_frame cfg f (s, conn))))"
    unfolding view using entry_emissions_types by fastforce
  have 2: "v \<notin> fst ` set (pending_exit (fst (fst (update_frame cfg f (s, conn)))))"
    using update_frame_pending_keys [of cfg f s conn] assms(3) by blast
  have 3: "a \<notin> fst ` set (active_tracks (fst (fst (update_frame cfg f (s, conn)))))"
    using update_frame_active_keys [of cfg f s conn] assms(2) by blast
  have 4: "length (on_visitor v (snd (update_frame cfg f (s, conn)))) \<le> 1"
    unfolding view by (rule entry_emissions_length)
  have 5: "v \<in> logged_entry_this_visit s \<longrightarrow> on_visitor v (snd (update_frame cfg f (s, conn))) = []"
    unfolding view by (simp add: entry_emissions_def)
  from 1 2 3 4 5 show ?thesis by blast
qed

theorem track_churn_transparent_witness:
  "(2, 7, 6) \<in> set (active_tracks churn_s) \<and> 2 \<notin> frame_track_ids demo_frame \<and>
   7 \<in> set (visible_visitors demo_cfg demo_frame churn_s demo_conn) \<and>
   update_frame demo_cfg demo_frame (churn_s, demo_conn) =
     ((\<lparr>active_tracks = [(1, 7, 10)], pending_exit = [], logged_entry_this_visit = {7}\<rparr>, demo_conn), []) \<and>
   Exit \<notin> em_type ` set (on_visitor 7 (snd (update_frame demo_cfg demo_frame (churn_s, demo_conn)))) \<and>
   7 \<notin> fst ` set (pending_exit (fst (fst (update_frame demo_cfg demo_frame (churn_s, demo_conn)))))"
proof -
  have h1: "(2, 7, 6) \<in> set (active_tracks churn_s)" by (simp add: demo_defs)
  have h2: "2 \<notin> frame_track_ids demo_frame" by (simp add: model_defs demo_defs)
  have h3: "7 \<in> set (visible_visitors demo_cfg demo_frame churn_s demo_conn)"
    by (simp add: model_defs demo_defs)
  have e: "update_frame demo_cfg demo_frame (churn_s, demo_conn) =
     ((\<lparr>active_tracks = [(1, 7, 10)], pending_exit = [], logged_entry_this_visit = {7}\<rparr>, demo_conn), [])"
    by (simp add: model_defs demo_defs)
  show ?thesis using track_churn_transparent [OF h1 h2 h3] h1 h2 h3 e by simp
qed



text \<open>
  C7 (amended). Resolution of a new binding whose crop has an embedding. When
  \<^verbatim>\<open>find_visitor\<close> returns a visitor, it is a stored visitor whose similarity is at least
  the threshold and is greatest among all stored visitors, and the binding is bound to it.
  When it returns none, either the search raised or no stored visitor reaches the threshold;
  then \<^verbatim>\<open>register_new_visitor\<close> is called: if the INSERT succeeds the new identity is
  stored with this embedding and the binding is bound to it, and if it fails the binding is
  skipped for this frame and no identity comes out of the resolution.
\<close>

theorem reid_resolution:
  assumes "map_of (active_tracks s) t = None" and "get_embedding ev c = Some e"
  shows "(case find_visitor ev conn e (similarity_threshold cfg) of
            (Some v, sim) \<Rightarrow>
              (v, sim) \<in> set (similarity_rows ev conn e) \<and> similarity_threshold cfg \<le> sim \<and>
              (\<forall>r \<in> set (similarity_rows ev conn e). snd r \<le> sim) \<and>
              loop1_body cfg ev (t, c) (s, conn, ids, vis)
                = (bind_track t v c s, conn, insert t ids, add_visitor v vis)
          | (None, sim) \<Rightarrow>
              (find_raises ev e \<or> (\<forall>r \<in> set (similarity_rows ev conn e). snd r < similarity_threshold cfg)) \<and>
              (case insert_visitor ev e of
                 Some v \<Rightarrow>
                   if v \<in> fst ` set conn
                   then loop1_body cfg ev (t, c) (s, conn, ids, vis) = (s, conn, insert t ids, vis)
                   else loop1_body cfg ev (t, c) (s, conn, ids, vis)
                          = (bind_track t v c s, conn @ [(v, e)], insert t ids, add_visitor v vis)
               | None \<Rightarrow> loop1_body cfg ev (t, c) (s, conn, ids, vis) = (s, conn, insert t ids, vis)))"
proof (cases "find_visitor ev conn e (similarity_threshold cfg)")
  case (Pair r sim)
  show ?thesis
  proof (cases r)
    case None
    then have f: "fst (find_visitor ev conn e (similarity_threshold cfg)) = None"
      using Pair by simp
    show ?thesis
      using find_visitor_None [OF f] loop1_body_register [OF assms f, of ids vis] Pair None
      by (simp add: register_new_visitor_def split: option.splits)
  next
    case (Some v)
    then have f: "fst (find_visitor ev conn e (similarity_threshold cfg)) = Some v"
      using Pair by simp
    show ?thesis
      using find_visitor_Some [of ev conn e "similarity_threshold cfg" v sim]
        loop1_body_found [OF assms f, of ids vis] Pair Some
      by simp
  qed
qed

theorem reid_resolution_witness:
  "map_of (active_tracks init_tracker) 1 = None \<and> get_embedding demo_env 10 = Some [1, 0] \<and>
   find_visitor demo_env demo_conn [1, 0] (similarity_threshold demo_cfg) = (Some 7, 1) \<and>
   loop1_body demo_cfg demo_env (1, 10) (init_tracker, demo_conn, {}, [])
     = (bind_track 1 7 10 init_tracker, demo_conn, {1}, [7]) \<and>
   find_visitor demo_env [] [1, 0] (similarity_threshold demo_cfg) = (None, 0) \<and>
   loop1_body demo_cfg demo_env (1, 10) (init_tracker, [], {}, [])
     = (bind_track 1 7 10 init_tracker, [(7, [1, 0])], {1}, [7])"
proof -
  have h1: "map_of (active_tracks init_tracker) 1 = None" by (simp add: init_tracker_def)
  have h2: "get_embedding demo_env 10 = Some [1, 0]" by (simp add: demo_defs)
  have f1: "find_visitor demo_env demo_conn [1, 0] (similarity_threshold demo_cfg) = (Some 7, 1)"
    by (simp add: model_defs demo_defs)
  have f2: "find_visitor demo_env [] [1, 0] (similarity_threshold demo_cfg) = (None, 0)"
    by (simp add: model_defs demo_defs)
  have i: "insert_visitor demo_env [1, 0] = Some 7" by (simp add: demo_defs)
  from reid_resolution [OF h1 h2, of demo_conn demo_cfg "{}" "[]"] f1
  have a: "loop1_body demo_cfg demo_env (1, 10) (init_tracker, demo_conn, {}, [])
     = (bind_track 1 7 10 init_tracker, demo_conn, {1}, [7])"
    by (simp add: add_visitor_def)
  from reid_resolution [OF h1 h2, of "[]" demo_cfg "{}" "[]"] f2 i
  have b: "loop1_body demo_cfg demo_env (1, 10) (init_tracker, [], {}, [])
     = (bind_track 1 7 10 init_tracker, [(7, [1, 0])], {1}, [7])"
    by (simp add: add_visitor_def)
  from h1 h2 f1 f2 a b show ?thesis by simp
qed

text \<open>
  The claim as stated fails where the registration fails: the crop is usable, no stored
  visitor meets the threshold, and the resolution yields no visitor at all.
\<close>

theorem reid_resolution_counterexample:
  "get_embedding noregister_env 10 = Some [1, 0] \<and>
   find_visitor noregister_env [] [1, 0] (similarity_threshold demo_cfg) = (None, 0) \<and>
   loop1_body demo_cfg noregister_env (1, 10) (init_tracker, [], {}, []) = (init_tracker, [], {1}, []) \<and>
   visible_visitors demo_cfg \<lparr>tracks = Some [(1, 10)], world = noregister_env\<rparr> init_tracker [] = []"
  by (simp add: model_defs demo_defs init_tracker_def)

text \<open>
  C5 (amended). Sink failures. The outcome of every emission is what the sinks decide: it
  is recorded only if the image was written and the INSERT committed. The tracker after the
  frame, and what was emitted for whom with which crop, are the same as in the world where
  no INSERT fails and no exit image fails: for exits, and for entries whose INSERT fails,
  the state is updated as if the emission had succeeded, and nothing is emitted a second
  time. An entry whose image cannot be written is different: the visitor is not added to
  \<^verbatim>\<open>logged_entry_this_visit\<close>, so the entry is attempted again on the next frame that
  sees the visitor.
\<close>

theorem sink_failure_policy:
  "fst (update_frame cfg (f\<lparr>world := sinks_repaired (world f)\<rparr>) (s, conn)) = fst (update_frame cfg f (s, conn)) \<and>
   map em_content (snd (update_frame cfg (f\<lparr>world := sinks_repaired (world f)\<rparr>) (s, conn)))
     = map em_content (snd (update_frame cfg f (s, conn))) \<and>
   (\<forall>e \<in> set (snd (update_frame cfg f (s, conn))). em_outcome e = sink_outcome (world f) e) \<and>
   (\<forall>v c. v \<in> set (visible_visitors cfg f s conn) \<and> v \<notin> logged_entry_this_visit s \<and>
          crop_of_visitor (active_tracks (after_loop1 cfg f s conn)) v = Some c \<and>
          \<not> saved (save_cropped_face (world f) c v Entry) \<longrightarrow>
          v \<notin> logged_entry_this_visit (fst (fst (update_frame cfg f (s, conn)))) \<and>
          on_visitor v (snd (update_frame cfg f (s, conn))) = [Emission v Entry c ImageFailed])"
proof -
  have f: "f = \<lparr>tracks = tracks f, world = world f\<rparr>" by simp
  have f': "f\<lparr>world := sinks_repaired (world f)\<rparr> = \<lparr>tracks = tracks f, world = sinks_repaired (world f)\<rparr>"
    by simp
  have "fst (update_frame cfg \<lparr>tracks = tracks f, world = sinks_repaired (world f)\<rparr> (s, conn))
          = fst (update_frame cfg \<lparr>tracks = tracks f, world = world f\<rparr> (s, conn)) \<and>
        map em_content (snd (update_frame cfg \<lparr>tracks = tracks f, world = sinks_repaired (world f)\<rparr> (s, conn)))
          = map em_content (snd (update_frame cfg \<lparr>tracks = tracks f, world = world f\<rparr> (s, conn)))"
    by (rule update_frame_same [OF same_inputs_repaired])
  then have 1: "fst (update_frame cfg (f\<lparr>world := sinks_repaired (world f)\<rparr>) (s, conn)) = fst (update_frame cfg f (s, conn)) \<and>
   map em_content (snd (update_frame cfg (f\<lparr>world := sinks_repaired (world f)\<rparr>) (s, conn)))
     = map em_content (snd (update_frame cfg f (s, conn)))"
    unfolding f' using f by simp
  show ?thesis using 1 update_frame_outcomes [of _ cfg f s conn] entry_image_failure [of _ cfg f s conn]
    by blast
qed

theorem sink_failure_policy_witness:
  "update_frame demo_cfg sinkfail_frame (leaving_s, demo_conn) =
     ((\<lparr>active_tracks = [(1, 7, 10)], pending_exit = [], logged_entry_this_visit = {7}\<rparr>, demo_conn),
      [Emission 7 Entry 10 StoreFailed, Emission 8 Exit 6 ImageFailed]) \<and>
   fst (update_frame demo_cfg (sinkfail_frame\<lparr>world := sinks_repaired (world sinkfail_frame)\<rparr>)
          (leaving_s, demo_conn))
     = (\<lparr>active_tracks = [(1, 7, 10)], pending_exit = [], logged_entry_this_visit = {7}\<rparr>, demo_conn) \<and>
   7 \<in> set (visible_visitors demo_cfg entryfail_frame init_tracker demo_conn) \<and>
   7 \<notin> logged_entry_this_visit init_tracker \<and>
   crop_of_visitor (active_tracks (after_loop1 demo_cfg entryfail_frame init_tracker demo_conn)) 7 = Some 10 \<and>
   \<not> saved (save_cropped_face (world entryfail_frame) 10 7 Entry) \<and>
   7 \<notin> logged_entry_this_visit (fst (fst (update_frame demo_cfg entryfail_frame (init_tracker, demo_conn)))) \<and>
   on_visitor 7 (snd (update_frame demo_cfg entryfail_frame (init_tracker, demo_conn)))
     = [Emission 7 Entry 10 ImageFailed]"
proof -
  have e: "update_frame demo_cfg sinkfail_frame (leaving_s, demo_conn) =
     ((\<lparr>active_tracks = [(1, 7, 10)], pending_exit = [], logged_entry_this_visit = {7}\<rparr>, demo_conn),
      [Emission 7 Entry 10 StoreFailed, Emission 8 Exit 6 ImageFailed])"
    by (auto simp add: model_defs demo_defs)
  have h1: "7 \<in> set (visible_visitors demo_cfg entryfail_frame init_tracker demo_conn)"
    by (simp add: model_defs demo_defs init_tracker_def)
  have h2: "7 \<notin> logged_entry_this_visit init_tracker" by (simp add: init_tracker_def)
  have h3: "crop_of_visitor (active_tracks (after_loop1 demo_cfg entryfail_frame init_tracker demo_conn)) 7 = Some 10"
    by (simp add: after_loop1_def model_defs demo_defs init_tracker_def)
  have h4: "\<not> saved (save_cropped_face (world entryfail_frame) 10 7 Entry)"
    by (simp add: saved_def demo_defs)
  from sink_failure_policy [of demo_cfg sinkfail_frame leaving_s demo_conn] e
  have a: "fst (update_frame demo_cfg (sinkfail_frame\<lparr>world := sinks_repaired (world sinkfail_frame)\<rparr>)
          (leaving_s, demo_conn))
     = (\<lparr>active_tracks = [(1, 7, 10)], pending_exit = [], logged_entry_this_visit = {7}\<rparr>, demo_conn)"
    by simp
  from sink_failure_policy [of demo_cfg entryfail_frame init_tracker demo_conn] h1 h2 h3 h4
  have b: "7 \<notin> logged_entry_this_visit (fst (fst (update_frame demo_cfg entryfail_frame (init_tracker, demo_conn)))) \<and>
   on_visitor 7 (snd (update_frame demo_cfg entryfail_frame (init_tracker, demo_conn)))
     = [Emission 7 Entry 10 ImageFailed]"
    by blast
  from e a h1 h2 h3 h4 b show ?thesis by blast
qed

text \<open>
  The claim as stated fails for an entry whose image cannot be written: the visitor is not
  in \<^verbatim>\<open>logged_entry_this_visit\<close> afterwards, where a successful emission leaves it, and the
  next frame emits the entry again.
\<close>

theorem sink_failure_policy_counterexample:
  "logged_entry_this_visit (fst (fst (update_frame demo_cfg entryfail_frame (init_tracker, demo_conn)))) = {} \<and>
   logged_entry_this_visit (fst (fst (update_frame demo_cfg demo_frame (init_tracker, demo_conn)))) = {7} \<and>
   snd (run demo_cfg [entryfail_frame, demo_frame] ((init_tracker, demo_conn), []))
     = [Emission 7 Entry 10 ImageFailed, Emission 7 Entry 10 Recorded]"
  by (simp add: model_defs demo_defs init_tracker_def)

text \<open>
  C9. Reappearance cancels the pending exit. In a tracker that satisfies the invariant of
  all reachable trackers, visitor \<open>v\<close> waits in \<^verbatim>\<open>pending_exit\<close> since \<open>ts\<close>; through the
  frames \<open>fs\<close> it is not resolved and no sweep comes later than the timeout after \<open>ts\<close>; in frame \<open>f\<close> some binding resolves to \<open>v\<close> again. Then no exit is
  emitted for \<open>v\<close> in any of these frames, and \<open>v\<close> is not pending afterwards; if \<open>v\<close> had
  entered, nothing at all is emitted for it (no re-entry) and it still counts as entered.
  Frame \<open>f\<close> carries no condition on its clock: loop 2 cancels before loops 3 and 4 run, so
  the exit is cancelled even when the sweep of \<open>f\<close> itself comes after the deadline.
\<close>

theorem reappearance_cancels_exit:
  assumes "tracker_inv s" and "map_of (pending_exit s) v = Some (ts, c)"
    and "absent_during cfg v fs (s, conn)"
    and "\<forall>g \<in> set fs. sweep_time (world g) - ts \<le> exit_timeout cfg"
    and "v \<in> set (visible_visitors cfg f (fst (fst (run cfg fs ((s, conn), []))))
                    (snd (fst (run cfg fs ((s, conn), [])))))"
  shows "Exit \<notin> em_type ` set (on_visitor v (snd (run cfg (fs @ [f]) ((s, conn), [])))) \<and>
         v \<notin> fst ` set (pending_exit (fst (fst (run cfg (fs @ [f]) ((s, conn), []))))) \<and>
         (v \<in> logged_entry_this_visit s \<longrightarrow>
            on_visitor v (snd (run cfg (fs @ [f]) ((s, conn), []))) = [] \<and>
            v \<in> logged_entry_this_visit (fst (fst (run cfg (fs @ [f]) ((s, conn), [])))))"
proof -
  obtain s1 conn1 where r: "fst (run cfg fs ((s, conn), [])) = (s1, conn1)"
    by (cases "fst (run cfg fs ((s, conn), []))")
  note q = quiet_run [OF assms(1-4)]
  have vis: "v \<in> set (visible_visitors cfg f s1 conn1)" using assms(5) r by simp
  note b = reappear_frame [OF vis]
  have l: "v \<in> logged_entry_this_visit s1 \<longleftrightarrow> v \<in> logged_entry_this_visit s"
    using q r by simp
  show ?thesis unfolding run_snoc r using q b l by simp
qed

theorem reappearance_cancels_exit_witness:
  "tracker_inv waiting_s \<and> map_of (pending_exit waiting_s) 7 = Some (0, 5) \<and>
   absent_during demo_cfg 7 [idle_frame] (waiting_s, demo_conn) \<and>
   sweep_time (world idle_frame) - 0 \<le> exit_timeout demo_cfg \<and>
   exit_timeout demo_cfg < sweep_time (world back_frame) - 0 \<and>
   run demo_cfg [idle_frame, back_frame] ((waiting_s, demo_conn), [])
     = ((\<lparr>active_tracks = [(1, 7, 10)], pending_exit = [], logged_entry_this_visit = {7}\<rparr>, demo_conn), []) \<and>
   Exit \<notin> em_type ` set (on_visitor 7 (snd (run demo_cfg ([idle_frame] @ [back_frame]) ((waiting_s, demo_conn), [])))) \<and>
   7 \<notin> fst ` set (pending_exit (fst (fst (run demo_cfg ([idle_frame] @ [back_frame]) ((waiting_s, demo_conn), [])))))"
proof -
  have h1: "tracker_inv waiting_s" by (simp add: tracker_inv_def visitors_of_def demo_defs)
  have h2: "map_of (pending_exit waiting_s) 7 = Some (0, 5)" by (simp add: demo_defs)
  have h3: "absent_during demo_cfg 7 [idle_frame] (waiting_s, demo_conn)"
    by (simp add: model_defs demo_defs)
  have h4: "\<forall>g \<in> set [idle_frame]. sweep_time (world g) - 0 \<le> exit_timeout demo_cfg"
    by (simp add: demo_defs)
  have h5: "7 \<in> set (visible_visitors demo_cfg back_frame
               (fst (fst (run demo_cfg [idle_frame] ((waiting_s, demo_conn), []))))
               (snd (fst (run demo_cfg [idle_frame] ((waiting_s, demo_conn), [])))))"
    by (simp add: model_defs demo_defs)
  have h6: "exit_timeout demo_cfg < sweep_time (world back_frame) - 0"
    by (simp add: demo_defs)
  have e: "run demo_cfg [idle_frame, back_frame] ((waiting_s, demo_conn), [])
     = ((\<lparr>active_tracks = [(1, 7, 10)], pending_exit = [], logged_entry_this_visit = {7}\<rparr>, demo_conn), [])"
    by (simp add: model_defs demo_defs)
  have h4': "sweep_time (world idle_frame) - 0 \<le> exit_timeout demo_cfg" using h4 by simp
  from reappearance_cancels_exit [OF h1 h2 h3 h4 h5] h1 h2 h3 h4' h6 e show ?thesis by blast
qed













end
